theory Spec2Isabelle
  imports Main "HOL-Library.Word"
begin

unbundle bit_operations_syntax

section \<open>Go values used by the scanner\<close>

text \<open>
  A Go \<^verbatim>\<open>[]byte\<close> is a list of 8-bit words, a \<^verbatim>\<open>uint64\<close> a 64-bit word. A Go
  \<^verbatim>\<open>int\<close> that holds an offset or a length of the buffer is an \<^typ>\<open>int\<close>; the two
  places of \<^verbatim>\<open>scan.go\<close> where a 64-bit \<^verbatim>\<open>int\<close> can leave its range (the conversion
  \<^verbatim>\<open>int(filenameLen)\<close> of a decoded \<^verbatim>\<open>uint64\<close> and the sum \<^verbatim>\<open>computedEnd\<close> built from
  it) have the wrap-around written out with \<open>go_int\<close>.

  A slice expression that leaves the slice panics in Go. Here it returns \<open>None\<close>, and
  \<open>None\<close> is propagated by every caller, so a panic anywhere is the result \<open>None\<close> of
  the whole call. Go checks the upper bound of \<^verbatim>\<open>s[i:j]\<close> against the capacity; the
  model checks it against the length, which panics at least as often.
\<close>

type_synonym byte = "8 word"
type_synonym uint64 = "64 word"

definition go_int :: "int \<Rightarrow> int" where
  "go_int x = signed_take_bit 63 x"

definition int_of_uint64 :: "uint64 \<Rightarrow> int" where
  "int_of_uint64 v = sint v"

definition len :: "'a list \<Rightarrow> int" where
  "len xs = int (length xs)"

definition slice_from :: "'a list \<Rightarrow> int \<Rightarrow> 'a list option" where
  "slice_from s i = (if 0 \<le> i \<and> i \<le> len s then Some (drop (nat i) s) else None)"

definition slice_to :: "'a list \<Rightarrow> int \<Rightarrow> 'a list option" where
  "slice_to s j = (if 0 \<le> j \<and> j \<le> len s then Some (take (nat j) s) else None)"

definition slice_between :: "'a list \<Rightarrow> int \<Rightarrow> int \<Rightarrow> 'a list option" where
  "slice_between s i j =
     (if 0 \<le> i \<and> i \<le> j \<and> j \<le> len s then Some (take (nat (j - i)) (drop (nat i) s))
      else None)"

definition index_at :: "'a list \<Rightarrow> int \<Rightarrow> 'a option" where
  "index_at s i = (if 0 \<le> i \<and> i < len s then Some (s ! nat i) else None)"

section \<open>The wire-format decoder consumed by the scanner\<close>

text \<open>
  \<^verbatim>\<open>scan.go\<close> calls \<^verbatim>\<open>protowire.ConsumeVarint\<close>, \<^verbatim>\<open>protowire.ConsumeField\<close> and
  \<^verbatim>\<open>protowire.ParseError\<close> of \<^verbatim>\<open>google.golang.org/protobuf/encoding/protowire\<close>. The
  library reports a failure as a negative length; here a failure is \<open>Inl\<close> of its error
  code and a success is \<open>Inr\<close> of the decoded values with the (positive) length.
\<close>

datatype errCode =
  errCodeTruncated | errCodeFieldNumber | errCodeOverflow | errCodeReserved
  | errCodeEndGroup | errCodeRecursionDepth

text \<open>
  \<^verbatim>\<open>ConsumeVarint\<close> reads at most ten bytes, seven payload bits each, least significant
  group first; the tenth byte may only contribute one bit. \<open>i\<close> counts the bytes read so
  far and \<open>v\<close> is the value accumulated from them.
\<close>

fun ConsumeVarint_from :: "nat \<Rightarrow> uint64 \<Rightarrow> byte list \<Rightarrow> errCode + (uint64 \<times> int)" where
  "ConsumeVarint_from i v [] = Inl errCodeTruncated"
| "ConsumeVarint_from i v (b # bs) =
     (let y = (ucast b :: uint64) in
      if i = 9 then
        (if y < 2 then Inr (v + push_bit 63 y, 10) else Inl errCodeOverflow)
      else if y < 0x80 then Inr (v + push_bit (7 * i) y, int i + 1)
      else ConsumeVarint_from (i + 1) (v + push_bit (7 * i) y - push_bit (7 * i) 0x80) bs)"

definition ConsumeVarint :: "byte list \<Rightarrow> errCode + (uint64 \<times> int)" where
  "ConsumeVarint b = ConsumeVarint_from 0 0 b"

text \<open>Wire types are the low three bits of a tag; field numbers are \<^verbatim>\<open>int32\<close>.\<close>

definition VarintType :: nat where "VarintType = 0"
definition Fixed64Type :: nat where "Fixed64Type = 1"
definition BytesType :: nat where "BytesType = 2"
definition StartGroupType :: nat where "StartGroupType = 3"
definition EndGroupType :: nat where "EndGroupType = 4"
definition Fixed32Type :: nat where "Fixed32Type = 5"

definition MinValidNumber :: int where "MinValidNumber = 1"
definition MaxValidNumber :: int where "MaxValidNumber = 2 ^ 29 - 1"
definition DefaultRecursionLimit :: int where "DefaultRecursionLimit = 10000"

definition DecodeTag :: "uint64 \<Rightarrow> int \<times> nat" where
  "DecodeTag x =
     (if drop_bit 3 x > 0x7FFFFFFF then (- 1, 0)
      else (uint (drop_bit 3 x), unat (x AND 7)))"

definition ConsumeTag :: "byte list \<Rightarrow> errCode + (int \<times> nat \<times> int)" where
  "ConsumeTag b =
     (case ConsumeVarint b of
        Inl e \<Rightarrow> Inl e
      | Inr (v, n) \<Rightarrow>
          (case DecodeTag v of
             (num, typ) \<Rightarrow>
               if num < MinValidNumber then Inl errCodeFieldNumber else Inr (num, typ, n)))"

definition ConsumeFixed32 :: "byte list \<Rightarrow> errCode + int" where
  "ConsumeFixed32 b = (if length b < 4 then Inl errCodeTruncated else Inr 4)"

definition ConsumeFixed64 :: "byte list \<Rightarrow> errCode + int" where
  "ConsumeFixed64 b = (if length b < 8 then Inl errCodeTruncated else Inr 8)"

text \<open>
  \<^verbatim>\<open>ConsumeBytes\<close>: a varint length \<open>m\<close> and then \<open>m\<close> bytes. Only the total length is
  used by the callers modelled here. The comparison of \<open>m\<close> with the number of bytes left
  is unsigned.
\<close>

definition ConsumeBytes :: "byte list \<Rightarrow> errCode + int" where
  "ConsumeBytes b =
     (case ConsumeVarint b of
        Inl e \<Rightarrow> Inl e
      | Inr (m, n) \<Rightarrow>
          if uint m > len (drop (nat n) b) then Inl errCodeTruncated
          else Inr (n + uint m))"

text \<open>
  \<^verbatim>\<open>consumeFieldValueD\<close>: the length of one field value. A group is a sequence of
  records up to the matching end-group tag; \<open>consumeGroup\<close> is the loop of the
  \<^verbatim>\<open>StartGroupType\<close> case, with \<open>n0\<close> the length of the value's bytes when the loop
  was entered.
\<close>

function consumeFieldValueD :: "int \<Rightarrow> nat \<Rightarrow> byte list \<Rightarrow> int \<Rightarrow> errCode + int"
  and consumeGroup :: "int \<Rightarrow> int \<Rightarrow> byte list \<Rightarrow> int \<Rightarrow> errCode + int" where
  "consumeFieldValueD num typ b depth =
     (if typ = VarintType then
        (case ConsumeVarint b of Inl e \<Rightarrow> Inl e | Inr (v, n) \<Rightarrow> Inr n)
      else if typ = Fixed32Type then ConsumeFixed32 b
      else if typ = Fixed64Type then ConsumeFixed64 b
      else if typ = BytesType then ConsumeBytes b
      else if typ = StartGroupType then
        (if depth < 0 then Inl errCodeRecursionDepth else consumeGroup num (len b) b depth)
      else if typ = EndGroupType then Inl errCodeEndGroup
      else Inl errCodeReserved)"
| "consumeGroup num n0 b depth =
     (case ConsumeTag b of
        Inl e \<Rightarrow> Inl e
      | Inr (num2, typ2, n) \<Rightarrow>
          (let b1 = drop (nat n) b in
           if typ2 = EndGroupType then
             (if num \<noteq> num2 then Inl errCodeEndGroup else Inr (n0 - len b1))
           else
             (case consumeFieldValueD num2 typ2 b1 (depth - 1) of
                Inl e \<Rightarrow> Inl e
              | Inr m \<Rightarrow> consumeGroup num n0 (drop (nat m) b1) depth)))"
  by pat_completeness auto

lemma ConsumeVarint_from_bounds:
  "ConsumeVarint_from i v b = Inr (x, n) \<Longrightarrow> int i + 1 \<le> n \<and> n \<le> int i + len b"
  by (induction i v b rule: ConsumeVarint_from.induct)
     (auto simp: len_def Let_def split: if_splits)

lemma ConsumeVarint_bounds:
  "ConsumeVarint b = Inr (x, n) \<Longrightarrow> 1 \<le> n \<and> n \<le> len b"
  unfolding ConsumeVarint_def using ConsumeVarint_from_bounds [of 0 0 b x n] by simp

lemma ConsumeTag_bounds:
  "ConsumeTag b = Inr (num, typ, n) \<Longrightarrow> 1 \<le> n \<and> n \<le> len b"
  unfolding ConsumeTag_def
  by (auto split: sum.splits prod.splits if_splits dest: ConsumeVarint_bounds)

termination consumeFieldValueD
proof (relation "measure (\<lambda>x. case x of
          Inl (num, typ, b, depth) \<Rightarrow> 2 * length b + 1
        | Inr (num, n0, b, depth) \<Rightarrow> 2 * length b)", goal_cases)
  case 1
  show ?case by simp
next
  case (2 num wt b depth)
  show ?case by simp
next
  case (3 num n0 b depth x num2 y typ2 n b1)
  then have "1 \<le> n \<and> n \<le> len b" using ConsumeTag_bounds [of b num2 typ2 n] by simp
  then show ?case using 3 by (auto simp: len_def)
next
  case (4 num n0 b depth x num2 y typ2 n b1 m)
  then have "1 \<le> n \<and> n \<le> len b" using ConsumeTag_bounds [of b num2 typ2 n] by simp
  then show ?case using 4 by (auto simp: len_def)
qed

definition ConsumeFieldValue :: "int \<Rightarrow> nat \<Rightarrow> byte list \<Rightarrow> errCode + int" where
  "ConsumeFieldValue num typ b = consumeFieldValueD num typ b DefaultRecursionLimit"

definition ConsumeField :: "byte list \<Rightarrow> errCode + (int \<times> nat \<times> int)" where
  "ConsumeField b =
     (case ConsumeTag b of
        Inl e \<Rightarrow> Inl e
      | Inr (num, typ, n) \<Rightarrow>
          (case ConsumeFieldValue num typ (drop (nat n) b) of
             Inl e \<Rightarrow> Inl e
           | Inr m \<Rightarrow> Inr (num, typ, n + m)))"

text \<open>
  \<^verbatim>\<open>ParseError\<close> turns an error code into a Go error; the model keeps its message, which
  is all \<^verbatim>\<open>scan.go\<close> looks at. The library's own errors carry the prefix \<^verbatim>\<open>proto:\<close>;
  a truncated input is \<^verbatim>\<open>io.ErrUnexpectedEOF\<close>.
\<close>

definition ParseError :: "errCode \<Rightarrow> string" where
  "ParseError c =
     (case c of
        errCodeTruncated \<Rightarrow> ''unexpected EOF''
      | errCodeFieldNumber \<Rightarrow> ''proto: invalid field number''
      | errCodeOverflow \<Rightarrow> ''proto: variable length integer overflow''
      | errCodeReserved \<Rightarrow> ''proto: cannot parse reserved wire type''
      | errCodeEndGroup \<Rightarrow> ''proto: mismatching end group marker''
      | errCodeRecursionDepth \<Rightarrow> ''proto: parse error'')"

text \<open>
  \<^verbatim>\<open>bytes.Index\<close> and \<^verbatim>\<open>strings.Index\<close>: the offset of the first occurrence of \<open>sep\<close>,
  or \<open>-1\<close>. \<open>i\<close> is the offset of the list that is left in the list the search began on.
\<close>

fun Index_from :: "int \<Rightarrow> 'a list \<Rightarrow> 'a list \<Rightarrow> int" where
  "Index_from i [] sep = (if sep = [] then i else - 1)"
| "Index_from i (x # xs) sep =
     (if take (length sep) (x # xs) = sep then i else Index_from (i + 1) xs sep)"

definition bytes_Index :: "byte list \<Rightarrow> byte list \<Rightarrow> int" where
  "bytes_Index s sep = Index_from 0 s sep"

definition strings_Contains :: "string \<Rightarrow> string \<Rightarrow> bool" where
  "strings_Contains s substr = (Index_from 0 s substr \<ge> 0)"

text \<open>\<^verbatim>\<open>bytes.LastIndexByte\<close>: the offset of the last byte equal to \<open>c\<close>, or \<open>-1\<close>.\<close>

fun bytes_LastIndexByte :: "byte list \<Rightarrow> byte \<Rightarrow> int" where
  "bytes_LastIndexByte [] c = - 1"
| "bytes_LastIndexByte (x # xs) c =
     (let r = bytes_LastIndexByte xs c in
      if r \<noteq> - 1 then r + 1 else if x = c then 0 else - 1)"

section \<open>scan.go\<close>

text \<open>The marker \<^verbatim>\<open>.proto\<close> as bytes, and the tag byte of field 1, length-delimited.\<close>

definition scan :: "byte list" where
  "scan = [0x2e, 0x70, 0x72, 0x6f, 0x74, 0x6f]"

definition magicByte :: byte where
  "magicByte = 0xa"

text \<open>
  What the program prints is a list of \<^verbatim>\<open>Printf\<close> calls, each the format string and its
  arguments, in the order they are made. \<open>debugPrintf\<close> prints only under the flag
  \<^verbatim>\<open>DebugScan\<close>, which the model passes as the argument \<open>dbg\<close>.
\<close>

datatype arg = AInt int | AUint uint64 | ABytes "byte list" | AErr "string option"

type_synonym printed = "(string \<times> arg list) list"

definition debugPrintf :: "bool \<Rightarrow> string \<Rightarrow> arg list \<Rightarrow> printed" where
  "debugPrintf DebugScan format args =
     (if DebugScan then [(''[DEBUG] '' @ format, args)] else [])"

text \<open>\<open>emit out r\<close>: the lines \<open>out\<close> were printed before the computation \<open>r\<close> ran.\<close>

definition emit :: "printed \<Rightarrow> ('a \<times> printed) option \<Rightarrow> ('a \<times> printed) option" where
  "emit out r = (case r of None \<Rightarrow> None | Some (x, out') \<Rightarrow> Some (x, out @ out'))"

declare consumeFieldValueD.simps [simp del] consumeGroup.simps [simp del]

lemma ConsumeFieldValueD_bounds:
  "consumeFieldValueD num wt b depth = Inr m \<Longrightarrow> 0 \<le> m \<and> m \<le> len b"
  "consumeGroup num n0 b depth = Inr m \<Longrightarrow> len b \<le> n0 \<Longrightarrow> 0 \<le> m \<and> m \<le> n0"
proof (induction num wt b depth and num n0 b depth arbitrary: m and m
       rule: consumeFieldValueD_consumeGroup.induct)
  case (1 num wt b depth)
  then show ?case
    by (auto simp: consumeFieldValueD.simps ConsumeFixed32_def ConsumeFixed64_def
        ConsumeBytes_def len_def
        split: if_splits sum.splits prod.splits dest!: ConsumeVarint_bounds)
next
  case (2 num n0 b depth)
  show ?case
  proof (cases "ConsumeTag b")
    case (Inl e)
    with 2 show ?thesis by (simp add: consumeGroup.simps)
  next
    case (Inr r)
    obtain num2 typ2 n where r: "r = (num2, typ2, n)" by (cases r)
    have nb: "1 \<le> n \<and> n \<le> len b" using ConsumeTag_bounds Inr r by blast
    show ?thesis
    proof (cases "typ2 = EndGroupType")
      case True
      with 2 Inr r nb show ?thesis
        by (auto simp: consumeGroup.simps len_def split: if_splits)
    next
      case False
      show ?thesis
      proof (cases "consumeFieldValueD num2 typ2 (drop (nat n) b) (depth - 1)")
        case (Inl e)
        with 2 \<open>ConsumeTag b = Inr r\<close> r False show ?thesis
          by (simp add: consumeGroup.simps)
      next
        case (Inr m')
        have "len (drop (nat m') (drop (nat n) b)) \<le> n0"
          using "2.prems"(2) by (simp add: len_def)
        moreover have "consumeGroup num n0 (drop (nat m') (drop (nat n) b)) depth = Inr m"
          using "2.prems"(1) \<open>ConsumeTag b = Inr r\<close> r False Inr
          by (simp add: consumeGroup.simps [of num n0 b depth])
        ultimately show ?thesis
          using "2.IH"(2) [OF \<open>ConsumeTag b = Inr r\<close> [unfolded r] refl refl refl False Inr]
          by blast
      qed
    qed
  qed
qed

lemma ConsumeField_bounds:
  "ConsumeField b = Inr (num, typ, n) \<Longrightarrow> 1 \<le> n \<and> n \<le> len b"
  unfolding ConsumeField_def ConsumeFieldValue_def
  by (auto simp: len_def split: sum.splits prod.splits
      dest!: ConsumeTag_bounds ConsumeFieldValueD_bounds(1))

subsection \<open>consumeBytes\<close>

text \<open>
  The loop of \<^verbatim>\<open>consumeBytes\<close>, with its variables \<open>position\<close> and \<open>consumedFieldOne\<close>
  as arguments. The result is the pair the Go function returns: the number of bytes
  consumed and the error (\<open>None\<close> for \<^verbatim>\<open>nil\<close>, otherwise its message).
\<close>

function consumeBytes_loop ::
  "byte list \<Rightarrow> int \<Rightarrow> int \<Rightarrow> bool \<Rightarrow> (int \<times> string option) option" where
  "consumeBytes_loop data start position consumedFieldOne =
     (case slice_from data position of
        None \<Rightarrow> None
      | Some rest \<Rightarrow>
          (case ConsumeField rest of
             Inl code \<Rightarrow>
               (let err = ParseError code in
                if strings_Contains err ''invalid field number''
                then Some (position - start, None)
                else Some (position - start, Some (''couldn't consume proto bytes: '' @ err)))
           | Inr (number, wtype, n) \<Rightarrow>
               if n = 0 then Some (position - start, None)
               else if number = 1 \<and> consumedFieldOne then Some (position - start, None)
               else
                 (let consumedFieldOne' = (consumedFieldOne \<or> number = 1);
                      position' = position + n
                  in case slice_from data start of
                       None \<Rightarrow> None
                     | Some tail \<Rightarrow>
                         if position' - start \<ge> len tail then Some (position' - start, None)
                         else consumeBytes_loop data start position' consumedFieldOne')))"
  by pat_completeness auto
termination
proof (relation "measure (\<lambda>(data, start, position, c). nat (len data - position))", goal_cases)
  case 1
  show ?case by simp
next
  case (2 data start position consumedFieldOne rest r number y wtype n c' position' tail)
  then have "1 \<le> n" using ConsumeField_bounds [of rest number wtype n] by simp
  then show ?case using 2
    by (auto simp: slice_from_def len_def split: if_splits)
qed

definition consumeBytes :: "byte list \<Rightarrow> int \<Rightarrow> (int \<times> string option) option" where
  "consumeBytes data position = consumeBytes_loop data position position False"

declare consumeBytes_loop.simps [simp del]

subsection \<open>findValidStartWithLength\<close>

text \<open>
  One pass of the body of the loop over \<^verbatim>\<open>tryLen\<close> (lines 138 to 149): \<open>Some r\<close> is the
  triple the Go function returns from inside the loop, \<open>None\<close> says that the pass ended
  without a return. A failed \<^verbatim>\<open>ConsumeVarint\<close> has a negative \<open>n\<close>, which is not
  \<^verbatim>\<open>tryLen\<close>.
\<close>

definition tryLen_body ::
  "bool \<Rightarrow> byte list \<Rightarrow> int \<Rightarrow> int \<Rightarrow> int \<Rightarrow> ((int \<times> int \<times> int) option \<times> printed) option" where
  "tryLen_body dbg data pos minValidLength tryLen =
     (let prefixStart = pos - tryLen in
      case slice_from data prefixStart of
        None \<Rightarrow> None
      | Some rest \<Rightarrow>
          (case ConsumeVarint rest of
             Inl e \<Rightarrow> Some (None, [])
           | Inr (candidateLen, n) \<Rightarrow>
               if n = tryLen \<and> int_of_uint64 candidateLen \<ge> minValidLength then
                 (let expectedEnd = pos + int_of_uint64 candidateLen in
                  if expectedEnd \<le> len data then
                    emit (debugPrintf dbg
                            ''    Found valid length prefix at %d: %d bytes (ends at %d)\<newline>''
                            [AInt prefixStart, AUint candidateLen, AInt expectedEnd])
                      (Some (Some (pos, int_of_uint64 candidateLen, n), []))
                  else Some (None, []))
               else Some (None, [])))"

text \<open>
  The loop \<^verbatim>\<open>for tryLen := 4; tryLen >= 1 && pos >= tryLen; tryLen--\<close>: it ends as soon
  as its condition is false.
\<close>

function tryLen_loop ::
  "bool \<Rightarrow> byte list \<Rightarrow> int \<Rightarrow> int \<Rightarrow> int \<Rightarrow> ((int \<times> int \<times> int) option \<times> printed) option" where
  "tryLen_loop dbg data pos minValidLength tryLen =
     (if tryLen \<ge> 1 \<and> pos \<ge> tryLen then
        (case tryLen_body dbg data pos minValidLength tryLen of
           None \<Rightarrow> None
         | Some (Some r, out) \<Rightarrow> Some (Some r, out)
         | Some (None, out) \<Rightarrow> emit out (tryLen_loop dbg data pos minValidLength (tryLen - 1)))
      else Some (None, []))"
  by pat_completeness auto
termination
  by (relation "measure (\<lambda>(dbg, data, pos, minValidLength, tryLen). nat tryLen)") auto

declare tryLen_loop.simps [simp del]

text \<open>
  The part of the body of the loop over \<^verbatim>\<open>searchStart\<close> that examines the tag byte
  found at \<open>pos\<close> (lines 89 to 156): \<open>Some r\<close> is the triple the Go function returns from
  there, \<open>None\<close> says that the pass went on to \<^verbatim>\<open>searchStart = pos\<close> (by \<^verbatim>\<open>continue\<close>
  or by reaching line 159). \<open>filenameEnd\<close> is \<^verbatim>\<open>protoIndex + len(scan)\<close>.
\<close>

definition checkCandidate ::
  "bool \<Rightarrow> byte list \<Rightarrow> int \<Rightarrow> int \<Rightarrow> ((int \<times> int \<times> int) option \<times> printed) option" where
  "checkCandidate dbg data filenameEnd pos =
     emit (debugPrintf dbg ''    Checking candidate 0xa at offset %d\<newline>'' [AInt pos])
       (if pos + 1 \<ge> len data then Some (None, [])
        else
          (case slice_from data (pos + 1) of
             None \<Rightarrow> None
           | Some lengthBytes \<Rightarrow>
               (case ConsumeVarint lengthBytes of
                  Inl e \<Rightarrow>
                    emit (debugPrintf dbg ''    Failed to parse varint at offset %d\<newline>''
                            [AInt (pos + 1)])
                      (Some (None, []))
                | Inr (filenameLen, varintLen) \<Rightarrow>
                    emit (debugPrintf dbg ''    Varint: length=%d, varintLen=%d\<newline>''
                            [AUint filenameLen, AInt varintLen])
                      (let computedEnd = go_int (pos + 1 + varintLen + int_of_uint64 filenameLen)
                       in
                       emit (debugPrintf dbg
                               ''    Computed filename end: %d, actual end: %d\<newline>''
                               [AInt computedEnd, AInt filenameEnd])
                         (if computedEnd = filenameEnd then
                            (let filenameStart = pos + 1 + varintLen in
                             if filenameStart < len data \<and> filenameStart < filenameEnd then
                               (case slice_between data filenameStart filenameEnd of
                                  None \<Rightarrow> None
                                | Some filename \<Rightarrow>
                                    if list_all (\<lambda>b. \<not> (b < 0x20 \<or> b > 0x7e)) filename then
                                      emit (debugPrintf dbg
                                              ''    Found valid start at offset %d, filename: %q\<newline>''
                                              [AInt pos, ABytes filename])
                                        (let minValidLength = len filename + 50 in
                                         if pos \<ge> 1 then
                                           (case tryLen_loop dbg data pos minValidLength 4 of
                                              None \<Rightarrow> None
                                            | Some (Some r, out) \<Rightarrow> Some (Some r, out)
                                            | Some (None, out) \<Rightarrow> Some (Some (pos, 0, 0), out))
                                         else Some (Some (pos, 0, 0), []))
                                    else Some (None, []))
                             else Some (None, []))
                          else Some (None, []))))))"

text \<open>The loop \<^verbatim>\<open>for searchStart > 0\<close>, and the \<^verbatim>\<open>return -1, 0, 0\<close> after it.\<close>

function findValidStart_loop ::
  "bool \<Rightarrow> byte list \<Rightarrow> int \<Rightarrow> int \<Rightarrow> ((int \<times> int \<times> int) \<times> printed) option" where
  "findValidStart_loop dbg data filenameEnd searchStart =
     (if searchStart > 0 then
        (case slice_to data searchStart of
           None \<Rightarrow> None
         | Some front \<Rightarrow>
             (let pos = bytes_LastIndexByte front magicByte in
              if pos = - 1 then Some ((- 1, 0, 0), [])
              else
                (case checkCandidate dbg data filenameEnd pos of
                   None \<Rightarrow> None
                 | Some (Some r, out) \<Rightarrow> Some (r, out)
                 | Some (None, out) \<Rightarrow>
                     emit out (findValidStart_loop dbg data filenameEnd pos))))
      else Some ((- 1, 0, 0), []))"
  by pat_completeness auto

lemma bytes_LastIndexByte_range:
  "bytes_LastIndexByte s c = - 1 \<or> (0 \<le> bytes_LastIndexByte s c \<and> bytes_LastIndexByte s c < len s)"
  by (induction s) (auto simp: Let_def len_def)

lemma bytes_LastIndexByte_at:
  "bytes_LastIndexByte s c \<noteq> - 1 \<Longrightarrow> s ! nat (bytes_LastIndexByte s c) = c"
proof (induction s)
  case Nil
  then show ?case by simp
next
  case (Cons x xs)
  show ?case
  proof (cases "bytes_LastIndexByte xs c = - 1")
    case True
    with Cons.prems show ?thesis by (auto simp: Let_def split: if_splits)
  next
    case False
    moreover have "0 \<le> bytes_LastIndexByte xs c"
      using bytes_LastIndexByte_range [of xs c] False by auto
    ultimately show ?thesis using Cons.IH by (simp add: Let_def nat_add_distrib)
  qed
qed

lemma LastIndexByte_slice_to:
  assumes "slice_to data searchStart = Some front"
    and "bytes_LastIndexByte front c \<noteq> - 1"
  shows "0 \<le> bytes_LastIndexByte front c \<and> bytes_LastIndexByte front c < searchStart
         \<and> searchStart \<le> len data
         \<and> data ! nat (bytes_LastIndexByte front c) = c"
proof -
  from assms(1) have b: "front = take (nat searchStart) data" and s: "0 \<le> searchStart"
    and l: "searchStart \<le> len data"
    by (auto simp: slice_to_def split: if_splits)
  from b s l have lb: "len front = searchStart" by (simp add: len_def)
  have r: "0 \<le> bytes_LastIndexByte front c \<and> bytes_LastIndexByte front c < len front"
    using bytes_LastIndexByte_range [of front c] assms(2) by auto
  have "front ! nat (bytes_LastIndexByte front c) = c"
    using bytes_LastIndexByte_at [OF assms(2)] .
  moreover have "front ! nat (bytes_LastIndexByte front c) = data ! nat (bytes_LastIndexByte front c)"
    using r lb s unfolding b by (intro nth_take) linarith
  ultimately show ?thesis using r lb l by simp
qed

termination findValidStart_loop
proof (relation "measure (\<lambda>(dbg, data, filenameEnd, searchStart). nat searchStart)", goal_cases)
  case 1
  show ?case by simp
next
  case (2 dbg data filenameEnd searchStart front pos)
  then show ?case using LastIndexByte_slice_to [of data searchStart front magicByte] by simp
qed

declare findValidStart_loop.simps [simp del]

definition findValidStartWithLength ::
  "bool \<Rightarrow> byte list \<Rightarrow> int \<Rightarrow> ((int \<times> int \<times> int) \<times> printed) option" where
  "findValidStartWithLength dbg data protoIndex =
     findValidStart_loop dbg data (protoIndex + len scan) protoIndex"

lemma emit_eq_Some:
  "emit out r = Some (x, out2) \<longleftrightarrow> (\<exists>out1. r = Some (x, out1) \<and> out2 = out @ out1)"
  by (auto simp: emit_def split: option.splits)

lemma emit_eq_None [simp]: "emit out r = None \<longleftrightarrow> r = None"
  by (auto simp: emit_def split: option.splits)

lemma emit_Some [simp]: "emit out (Some (x, out')) = Some (x, out @ out')"
  by (simp add: emit_def)

lemma tryLen_body_result:
  "tryLen_body dbg data pos m t = Some (Some (s, pl, pb), out) \<Longrightarrow>
     s = pos \<and> m \<le> pl \<and> pos + pl \<le> len data \<and> pb = t"
  unfolding tryLen_body_def
  by (auto simp: Let_def emit_eq_Some split: if_splits option.splits sum.splits prod.splits)

lemma tryLen_loop_result:
  "tryLen_loop dbg data pos m t = Some (Some (s, pl, pb), out) \<Longrightarrow>
     s = pos \<and> m \<le> pl \<and> pos + pl \<le> len data \<and> 1 \<le> pb \<and> pb \<le> t \<and> pb \<le> pos"
proof (induction dbg data pos m t arbitrary: out rule: tryLen_loop.induct)
  case (1 dbg data pos m t)
  from "1.prems" have c: "t \<ge> 1" "pos \<ge> t"
    by (subst (asm) tryLen_loop.simps, simp split: if_splits)+
  show ?case
  proof (cases "tryLen_body dbg data pos m t")
    case None
    with "1.prems" c show ?thesis by (subst (asm) tryLen_loop.simps) simp
  next
    case (Some a)
    obtain r out1 where a: "a = (r, out1)" by (cases a)
    show ?thesis
    proof (cases r)
      case None
      with "1.prems" c Some a obtain out2 where
        "tryLen_loop dbg data pos m (t - 1) = Some (Some (s, pl, pb), out2)"
        by (subst (asm) tryLen_loop.simps) (auto simp: emit_eq_Some)
      from "1.IH" [OF _ Some [unfolded a None] refl refl this] c show ?thesis by auto
    next
      case (Some r')
      with "1.prems" c \<open>tryLen_body dbg data pos m t = Some a\<close> a
      have "tryLen_body dbg data pos m t = Some (Some (s, pl, pb), out)"
        by (subst (asm) tryLen_loop.simps) auto
      from tryLen_body_result [OF this] c show ?thesis by auto
    qed
  qed
qed

lemma checkCandidate_result:
  "checkCandidate dbg data fe pos = Some (Some (s, pl, pb), out) \<Longrightarrow>
     s = pos \<and> (pl = 0 \<and> pb = 0 \<or> 50 \<le> pl \<and> pos + pl \<le> len data \<and> 1 \<le> pb \<and> pb \<le> 4 \<and> pb \<le> pos)"
  unfolding checkCandidate_def
  by (auto simp: Let_def emit_eq_Some len_def split: if_splits option.splits sum.splits prod.splits
      dest!: tryLen_loop_result)

lemma findValidStart_loop_start:
  "findValidStart_loop dbg data fe ss = Some ((start, pl, pb), out) \<Longrightarrow>
     start = - 1 \<or> (0 \<le> start \<and> start < ss \<and> ss \<le> len data \<and> data ! nat start = magicByte)"
proof (induction dbg data fe ss arbitrary: out rule: findValidStart_loop.induct)
  case (1 dbg data fe ss)
  show ?case
  proof (cases "ss > 0")
    case False
    with "1.prems" show ?thesis by (simp add: findValidStart_loop.simps)
  next
    case True
    then obtain front where b: "slice_to data ss = Some front"
      using "1.prems" by (subst (asm) findValidStart_loop.simps) (auto split: option.splits)
    define pos where "pos = bytes_LastIndexByte front magicByte"
    show ?thesis
    proof (cases "pos = - 1")
      case True
      with "1.prems" \<open>ss > 0\<close> b pos_def show ?thesis
        by (subst (asm) findValidStart_loop.simps) (simp add: Let_def)
    next
      case False
      note P = LastIndexByte_slice_to [OF b False [unfolded pos_def], folded pos_def]
      show ?thesis
      proof (cases "checkCandidate dbg data fe pos")
        case None
        with "1.prems" \<open>ss > 0\<close> b False show ?thesis
          by (subst (asm) findValidStart_loop.simps) (simp add: Let_def pos_def)
      next
        case (Some a)
        obtain r out1 where a: "a = (r, out1)" by (cases a)
        show ?thesis
        proof (cases r)
          case None
          with "1.prems" \<open>ss > 0\<close> b False Some a obtain out2 where
            "findValidStart_loop dbg data fe pos = Some ((start, pl, pb), out2)"
            by (subst (asm) findValidStart_loop.simps) (auto simp: Let_def pos_def emit_eq_Some)
          from "1.IH" [OF True b pos_def False Some [unfolded a None] refl refl this] P
          show ?thesis by auto
        next
          case (Some r')
          with "1.prems" \<open>ss > 0\<close> b False \<open>checkCandidate dbg data fe pos = Some a\<close> a
          have "checkCandidate dbg data fe pos = Some (Some (start, pl, pb), out)"
            by (subst (asm) findValidStart_loop.simps) (auto simp: Let_def pos_def)
          from checkCandidate_result [OF this] P show ?thesis by auto
        qed
      qed
    qed
  qed
qed

lemma ConsumeVarint_from_errors:
  "ConsumeVarint_from i v b = Inl e \<Longrightarrow> e = errCodeTruncated \<or> e = errCodeOverflow"
  by (induction i v b rule: ConsumeVarint_from.induct) (auto simp: Let_def split: if_splits)

lemma ConsumeVarint_errors:
  "ConsumeVarint b = Inl e \<Longrightarrow> e = errCodeTruncated \<or> e = errCodeOverflow"
  unfolding ConsumeVarint_def by (rule ConsumeVarint_from_errors)

lemma ConsumeTag_magic: "ConsumeTag (magicByte # bs) = Inr (1, BytesType, 1)"
  by (simp add: ConsumeTag_def ConsumeVarint_def magicByte_def DecodeTag_def MinValidNumber_def BytesType_def)

lemma ConsumeField_magic:
  "ConsumeField (magicByte # bs) = Inl errCodeTruncated
   \<or> ConsumeField (magicByte # bs) = Inl errCodeOverflow
   \<or> (\<exists>n. ConsumeField (magicByte # bs) = Inr (1, BytesType, n) \<and> 2 \<le> n)"
proof (cases "ConsumeVarint bs")
  case (Inl e)
  then show ?thesis using ConsumeVarint_errors [OF Inl]
    by (auto simp: ConsumeField_def ConsumeTag_magic ConsumeFieldValue_def consumeFieldValueD.simps
        BytesType_def VarintType_def Fixed32Type_def Fixed64Type_def ConsumeBytes_def)
next
  case (Inr r)
  obtain m n where r: "r = (m, n)" by (cases r)
  have "1 \<le> n" using ConsumeVarint_bounds Inr r by blast
  then have "1 \<le> n + uint m" by (simp add: add_increasing2)
  then show ?thesis using Inr r
    by (auto simp: ConsumeField_def ConsumeTag_magic ConsumeFieldValue_def consumeFieldValueD.simps
        BytesType_def VarintType_def Fixed32Type_def Fixed64Type_def ConsumeBytes_def)
qed

lemma not_field_number_message:
  "strings_Contains (ParseError e) ''invalid field number'' \<longleftrightarrow> e = errCodeFieldNumber"
  by (cases e) (simp_all add: strings_Contains_def ParseError_def)

lemma consumeBytes_loop_bounds:
  "consumeBytes_loop data start position c = Some (n, err) \<Longrightarrow> start \<le> position \<Longrightarrow>
     position - start \<le> n \<and> start + n \<le> len data"
proof (induction data start position c rule: consumeBytes_loop.induct)
  case (1 data start position c)
  from "1.prems"(1) obtain rest where rest: "slice_from data position = Some rest"
    by (subst (asm) consumeBytes_loop.simps) (auto split: option.splits)
  then have pl: "position \<le> len data" and rl: "len rest = len data - position"
    by (auto simp: slice_from_def len_def split: if_splits)
  show ?case
  proof (cases "ConsumeField rest")
    case (Inl e)
    with "1.prems" rest pl show ?thesis
      by (subst (asm) consumeBytes_loop.simps) (auto simp: Let_def split: if_splits)
  next
    case (Inr r)
    obtain number wt k where r: "r = (number, wt, k)" by (cases r)
    have k: "1 \<le> k \<and> k \<le> len rest" using ConsumeField_bounds Inr r by blast
    show ?thesis
    proof (cases "number = 1 \<and> c")
      case True
      with "1.prems" rest pl Inr r k show ?thesis
        by (subst (asm) consumeBytes_loop.simps) (auto simp: Let_def split: if_splits)
    next
      case False
      from "1.prems" obtain tl where tl: "slice_from data start = Some tl"
        using rest Inr r k False
        by (subst (asm) consumeBytes_loop.simps) (auto simp: Let_def split: if_splits option.splits)
      then have tll: "len tl = len data - start"
        by (auto simp: slice_from_def len_def split: if_splits)
      show ?thesis
      proof (cases "position + k - start \<ge> len tl")
        case True
        with "1.prems" rest pl Inr r k False tl tll rl show ?thesis
          by (subst (asm) consumeBytes_loop.simps) (auto simp: Let_def split: if_splits)
      next
        case ge: False
        have "consumeBytes_loop data start (position + k) (c \<or> number = 1) = Some (n, err)"
          using "1.prems" rest Inr r k False tl ge
          by (subst (asm) consumeBytes_loop.simps) (auto simp: Let_def split: if_splits)
        moreover have "k \<noteq> 0" "\<not> (number = 1 \<and> c)" using k False by auto
        ultimately show ?thesis
          using "1.IH" [OF rest Inr [unfolded r] refl refl \<open>k \<noteq> 0\<close> \<open>\<not> (number = 1 \<and> c)\<close> refl refl tl ge]
            "1.prems"(2) k by auto
      qed
    qed
  qed
qed

lemma consumeBytes_magic:
  assumes "consumeBytes data start = Some (n, None)"
    and "0 \<le> start" "start < len data" "data ! nat start = magicByte"
  shows "2 \<le> n \<and> start + n \<le> len data"
proof -
  have d: "drop (nat start) data = magicByte # drop (Suc (nat start)) data"
    using assms(2-4) by (metis Cons_nth_drop_Suc len_def nat_less_iff)
  have sf: "slice_from data start = Some (magicByte # drop (Suc (nat start)) data)"
    using assms(2,3) d by (simp add: slice_from_def)
  have L: "consumeBytes_loop data start start False = Some (n, None)"
    using assms(1) by (simp add: consumeBytes_def)
  have B: "start + n \<le> len data" using consumeBytes_loop_bounds [OF L] by simp
  from ConsumeField_magic [of "drop (Suc (nat start)) data"]
  consider (err) e where "ConsumeField (magicByte # drop (Suc (nat start)) data) = Inl e" "e \<noteq> errCodeFieldNumber"
    | (ok) k where "ConsumeField (magicByte # drop (Suc (nat start)) data) = Inr (1, BytesType, k)" "2 \<le> k"
    by auto
  then show ?thesis
  proof cases
    case err
    with L sf show ?thesis
      by (subst (asm) consumeBytes_loop.simps) (simp add: Let_def not_field_number_message)
  next
    case ok
    show ?thesis
    proof (cases "start + k - start \<ge> len (magicByte # drop (Suc (nat start)) data)")
      case True
      with L sf ok show ?thesis using B
        by (subst (asm) consumeBytes_loop.simps) (simp add: Let_def)
    next
      case False
      with L sf ok have "consumeBytes_loop data start (start + k) True = Some (n, None)"
        by (subst (asm) consumeBytes_loop.simps) (simp add: Let_def)
      from consumeBytes_loop_bounds [OF this] ok B show ?thesis by simp
    qed
  qed
qed

subsection \<open>Scan\<close>

text \<open>
  Lines 177 to 180: the start of the text printed as the possible file name. The loop
  runs whether or not \<^verbatim>\<open>DebugScan\<close> is set.
\<close>

function filenameStart_loop :: "byte list \<Rightarrow> int \<Rightarrow> int option" where
  "filenameStart_loop data filenameStart =
     (if filenameStart > 0 then
        (case index_at data (filenameStart - 1) of
           None \<Rightarrow> None
         | Some b \<Rightarrow>
             if b \<noteq> 0x0a \<and> b \<ge> 0x20 \<and> b \<le> 0x7e
             then filenameStart_loop data (filenameStart - 1)
             else Some filenameStart)
      else Some filenameStart)"
  by pat_completeness auto
termination
  by (relation "measure (\<lambda>(data, filenameStart). nat filenameStart)") auto

declare filenameStart_loop.simps [simp del]

text \<open>
  One pass of the body of the loop of \<^verbatim>\<open>Scan\<close>, from line 176 on, for a marker found at
  \<open>index\<close>, up to the point where the pass leaves the body:
  \<^item> \<open>Break\<close>: by \<^verbatim>\<open>break\<close> (line 226);
  \<^item> \<open>Skip\<close>: by \<^verbatim>\<open>continue\<close>, after \<^verbatim>\<open>data = data[index+1:]\<close> (lines 189 and 222);
  \<^item> \<open>Extract start n\<close>: at line 232, about to append \<^verbatim>\<open>data[start:start+length]\<close>.
\<close>

datatype iteration = Break | Skip | Extract int int

definition Scan_iteration ::
  "bool \<Rightarrow> byte list \<Rightarrow> int \<Rightarrow> int \<Rightarrow> (iteration \<times> printed) option" where
  "Scan_iteration dbg data totalOffset index =
     (let filenameEnd = index + len scan in
      case filenameStart_loop data index of
        None \<Rightarrow> None
      | Some filenameStart \<Rightarrow>
          (case slice_between data filenameStart filenameEnd of
             None \<Rightarrow> None
           | Some filename \<Rightarrow>
               emit (debugPrintf dbg
                       ''Found '.proto' at offset %d (absolute: %d), possible filename: %q\<newline>''
                       [AInt index, AInt (totalOffset + index), ABytes filename])
                 (case findValidStartWithLength dbg data index of
                    None \<Rightarrow> None
                  | Some ((start, prefixLen, prefixBytes), out) \<Rightarrow>
                      emit out
                        (if start = - 1 then
                           emit (debugPrintf dbg ''  No valid start found, skipping\<newline>'' [])
                             (Some (Skip, []))
                         else
                           emit (debugPrintf dbg
                                   ''  Using start at offset %d, prefixLen=%d, prefixBytes=%d\<newline>''
                                   [AInt start, AInt prefixLen, AInt prefixBytes])
                             (let contextStart = (if start > 10 then start - 10 else start);
                                  contextEnd =
                                    (if start + 30 > len data then len data else start + 30)
                              in
                              case slice_between data contextStart contextEnd of
                                None \<Rightarrow> None
                              | Some around \<Rightarrow>
                                  emit (debugPrintf dbg ''  Bytes around start: %x\<newline>''
                                          [ABytes around])
                                    (if prefixLen > 0 \<and> start + prefixLen \<le> len data then
                                       emit (debugPrintf dbg ''  Using length prefix: %d bytes\<newline>''
                                               [AInt prefixLen])
                                         (emit (debugPrintf dbg
                                                  ''  Extracted %d bytes from offset %d\<newline>''
                                                  [AInt prefixLen, AInt start])
                                            (Some (Extract start prefixLen, [])))
                                     else
                                       (case consumeBytes data start of
                                          None \<Rightarrow> None
                                        | Some (n, err) \<Rightarrow>
                                            emit (debugPrintf dbg
                                                    ''  consumeBytes returned length=%d, err=%v\<newline>''
                                                    [AInt n, AErr err])
                                              (if err \<noteq> None then
                                                 emit [(''%v\<newline>'', [AErr err])]
                                                   (if len data > index then Some (Skip, [])
                                                    else Some (Break, []))
                                               else
                                                 emit (debugPrintf dbg
                                                         ''  Extracted %d bytes from offset %d\<newline>''
                                                         [AInt n, AInt start])
                                                   (Some (Extract start n, []))))))))))"

text \<open>
  The loop of \<^verbatim>\<open>Scan\<close>. \<open>data\<close> is what is left of the buffer and \<open>totalOffset\<close> the
  offset of \<open>data\<close> in the buffer \<^verbatim>\<open>Scan\<close> was called on. A Go slice is a view of its
  backing array, so each element appended to \<^verbatim>\<open>results\<close> is a range of the buffer:
  the model keeps, with the bytes of each result, the offset in the buffer at which the
  slice begins.
\<close>

function Scan_loop ::
  "bool \<Rightarrow> byte list \<Rightarrow> int \<Rightarrow> ((int \<times> byte list) list \<times> printed) option" where
  "Scan_loop dbg data totalOffset =
     (let index = bytes_Index data scan in
      if index = - 1 then Some ([], [])
      else
        (case Scan_iteration dbg data totalOffset index of
           None \<Rightarrow> None
         | Some (Break, out) \<Rightarrow> Some ([], out)
         | Some (Skip, out) \<Rightarrow>
             (case slice_from data (index + 1) of
                None \<Rightarrow> None
              | Some data' \<Rightarrow> emit out (Scan_loop dbg data' (totalOffset + index + 1)))
         | Some (Extract start n, out) \<Rightarrow>
             (case slice_between data start (start + n) of
                None \<Rightarrow> None
              | Some candidate \<Rightarrow>
                  (case slice_from data (start + n) of
                     None \<Rightarrow> None
                   | Some data' \<Rightarrow>
                       emit out
                         (case Scan_loop dbg data' (totalOffset + start + n) of
                            None \<Rightarrow> None
                          | Some (results, out') \<Rightarrow>
                              Some ((totalOffset + start, candidate) # results, out'))))))"
  by pat_completeness auto

lemma Index_from_range:
  "Index_from i s sep = - 1 \<or>
   (i \<le> Index_from i s sep \<and> Index_from i s sep + len sep \<le> i + len s
    \<and> take (length sep) (drop (nat (Index_from i s sep - i)) s) = sep)"
  if "0 \<le> i"
  using that
proof (induction i s sep rule: Index_from.induct)
  case (1 i sep)
  then show ?case by (simp add: len_def)
next
  case (2 i x xs sep)
  show ?case
  proof (cases "take (length sep) (x # xs) = sep")
    case True
    then have "length (take (length sep) (x # xs)) = length sep" by simp
    then have "length sep \<le> length (x # xs)" by (simp only: length_take)
    with True show ?thesis by (simp add: len_def)
  next
    case False
    with 2 have "Index_from (i + 1) xs sep = - 1 \<or>
      (i + 1 \<le> Index_from (i + 1) xs sep \<and> Index_from (i + 1) xs sep + len sep \<le> i + 1 + len xs
        \<and> take (length sep) (drop (nat (Index_from (i + 1) xs sep - (i + 1))) xs) = sep)"
      by simp
    then show ?thesis
    proof
      assume "Index_from (i + 1) xs sep = - 1"
      with False show ?thesis by simp
    next
      assume a: "i + 1 \<le> Index_from (i + 1) xs sep \<and> Index_from (i + 1) xs sep + len sep \<le> i + 1 + len xs
        \<and> take (length sep) (drop (nat (Index_from (i + 1) xs sep - (i + 1))) xs) = sep"
      define r where "r = Index_from (i + 1) xs sep"
      have i1: "i + 1 \<le> r" and i2: "r + len sep \<le> i + 1 + len xs"
        and i3: "take (length sep) (drop (nat (r - (i + 1))) xs) = sep"
        using a r_def by simp_all
      have n: "nat (r - i) = Suc (nat (r - (i + 1)))" using i1 by linarith
      have "Index_from i (x # xs) sep = r" using False r_def by simp
      moreover have "take (length sep) (drop (nat (r - i)) (x # xs)) = sep"
        unfolding n using i3 by simp
      moreover have "r + len sep \<le> i + len (x # xs)" using i2 by (simp add: len_def)
      ultimately show ?thesis using i1 by simp
    qed
  qed
qed

lemma bytes_Index_range:
  "bytes_Index s sep = - 1 \<or>
   (0 \<le> bytes_Index s sep \<and> bytes_Index s sep + len sep \<le> len s
    \<and> take (length sep) (drop (nat (bytes_Index s sep)) s) = sep)"
  unfolding bytes_Index_def using Index_from_range [of 0 s sep] by simp

lemma findValidStartWithLength_start:
  "findValidStartWithLength dbg data index = Some ((start, pl, pb), out) \<Longrightarrow>
     start = - 1 \<or> (0 \<le> start \<and> start < index \<and> index \<le> len data \<and> data ! nat start = magicByte)"
  unfolding findValidStartWithLength_def by (rule findValidStart_loop_start)

lemma Scan_iteration_Extract:
  assumes "Scan_iteration dbg data totalOffset index = Some (Extract start n, out)"
  shows "0 \<le> start \<and> start < index \<and> 0 < n \<and> start + n \<le> len data"
proof -
  from assms obtain pl pb out1 where
    f: "findValidStartWithLength dbg data index = Some ((start, pl, pb), out1)"
    and s: "start \<noteq> - 1"
    and c: "(pl > 0 \<and> start + pl \<le> len data \<and> n = pl) \<or> consumeBytes data start = Some (n, None)"
    unfolding Scan_iteration_def
    by (auto simp: Let_def emit_eq_Some split: option.splits if_splits prod.splits)
  from findValidStartWithLength_start [OF f] s
  have st: "0 \<le> start" "start < index" "index \<le> len data" "data ! nat start = magicByte"
    by auto
  from c show ?thesis
  proof
    assume "pl > 0 \<and> start + pl \<le> len data \<and> n = pl"
    with st show ?thesis by simp
  next
    assume "consumeBytes data start = Some (n, None)"
    from consumeBytes_magic [OF this st(1) _ st(4)] st show ?thesis by simp
  qed
qed

lemma slice_from_shorter:
  "slice_from data k = Some data' \<Longrightarrow> 0 < k \<Longrightarrow> length data' < length data"
  by (auto simp: slice_from_def len_def split: if_splits)

termination Scan_loop
proof (relation "measure (\<lambda>(dbg, data, totalOffset). length data)", goal_cases)
  case 1
  show ?case by simp
next
  case (2 dbg data totalOffset index r it out data')
  then have "0 \<le> index" using bytes_Index_range [of data scan] by auto
  with 2 show ?case using slice_from_shorter [of data "index + 1" data'] by simp
next
  case (3 dbg data totalOffset index r it out start n result data')
  then have "Scan_iteration dbg data totalOffset index = Some (Extract start n, out)" by simp
  from Scan_iteration_Extract [OF this] 3 show ?case
    using slice_from_shorter [of data "start + n" data'] by simp
qed

declare Scan_loop.simps [simp del]

text \<open>
  \<^verbatim>\<open>Scan\<close> returns the byte slices. \<open>Scan_ranges\<close> reads the same results as the ranges
  of the buffer they are: the offset of each slice and its length.
\<close>

definition Scan :: "bool \<Rightarrow> byte list \<Rightarrow> (byte list list \<times> printed) option" where
  "Scan dbg data =
     (case Scan_loop dbg data 0 of
        None \<Rightarrow> None
      | Some (results, out) \<Rightarrow> Some (map snd results, out))"

definition Scan_ranges :: "bool \<Rightarrow> byte list \<Rightarrow> (int \<times> int) list option" where
  "Scan_ranges dbg data =
     (case Scan_loop dbg data 0 of
        None \<Rightarrow> None
      | Some (results, out) \<Rightarrow> Some (map (\<lambda>(offset, bytes). (offset, len bytes)) results))"

lemma Index_from_absent:
  "(\<forall>i. take (length sep) (drop i s) \<noteq> sep) \<Longrightarrow> Index_from k s sep = - 1"
proof (induction k s sep rule: Index_from.induct)
  case (1 i sep)
  from "1.prems" [rule_format, of 0] show ?case by auto
next
  case (2 i x xs sep)
  from "2.prems" [rule_format, of 0] have n: "take (length sep) (x # xs) \<noteq> sep" by simp
  have "\<forall>j. take (length sep) (drop j xs) \<noteq> sep"
  proof
    fix j
    from "2.prems" [rule_format, of "Suc j"] show "take (length sep) (drop j xs) \<noteq> sep" by simp
  qed
  with 2 n show ?case by simp
qed

text \<open>What a computation returns, without what it printed.\<close>

definition result :: "('a \<times> printed) option \<Rightarrow> 'a option" where
  "result r = map_option fst r"

lemma result_emit [simp]: "result (emit out r) = result r"
  by (auto simp: result_def emit_def split: option.splits)

lemma result_Some [simp]: "result (Some (x, out)) = Some x"
  by (simp add: result_def)

lemma result_None [simp]: "result None = None"
  by (simp add: result_def)

lemma result_eq_Some: "result r = Some x \<longleftrightarrow> (\<exists>out. r = Some (x, out))"
  by (cases r) (auto simp: result_def)

lemma result_eq_None: "result r = None \<longleftrightarrow> r = None"
  by (cases r) (auto simp: result_def)

lemma tryLen_body_flag: "result (tryLen_body dbg data pos m t) = result (tryLen_body False data pos m t)"
  unfolding tryLen_body_def
  by (simp add: Let_def split: option.splits sum.splits prod.splits)


lemma result_eq_cases:
  assumes "result a = result b"
  obtains (none) "a = None" "b = None"
  | (some) x out1 out2 where "a = Some (x, out1)" "b = Some (x, out2)"
proof (cases a)
  case None
  with assms have "b = None" by (simp add: result_def)
  with None show ?thesis by (rule none)
next
  case (Some p)
  obtain x out1 where p: "p = (x, out1)" by (cases p)
  with Some assms obtain out2 where "b = Some (x, out2)"
    by (cases b) (auto simp: result_def)
  with Some p show ?thesis by (auto intro: some)
qed

lemma tryLen_loop_flag:
  "result (tryLen_loop dbg data pos m t) = result (tryLen_loop False data pos m t)"
proof (induction dbg data pos m t rule: tryLen_loop.induct)
  case (1 dbg data pos m t)
  show ?case
  proof (cases "t \<ge> 1 \<and> pos \<ge> t")
    case False
    then show ?thesis by (subst tryLen_loop.simps, subst (2) tryLen_loop.simps) auto
  next
    case True
    from tryLen_body_flag [of dbg data pos m t] show ?thesis
    proof (cases rule: result_eq_cases)
      case none
      with True show ?thesis by (subst tryLen_loop.simps, subst (2) tryLen_loop.simps) simp
    next
      case (some x out1 out2)
      show ?thesis
      proof (cases x)
        case None
        with some True "1.IH" [OF True some(1) [unfolded None] refl refl] show ?thesis
          by (subst tryLen_loop.simps, subst (2) tryLen_loop.simps) simp
      next
        case (Some r)
        with some True show ?thesis
          by (subst tryLen_loop.simps, subst (2) tryLen_loop.simps) simp
      qed
    qed
  qed
qed

lemma checkCandidate_flag:
  "result (checkCandidate dbg data fe pos) = result (checkCandidate False data fe pos)"
proof -
  have "\<And>m. result (case tryLen_loop dbg data pos m 4 of
           None \<Rightarrow> None
         | Some (Some r, out) \<Rightarrow> Some (Some r, out)
         | Some (None, out) \<Rightarrow> Some (Some (pos, 0, 0), out))
     = result (case tryLen_loop False data pos m 4 of
           None \<Rightarrow> None
         | Some (Some r, out) \<Rightarrow> Some (Some r, out)
         | Some (None, out) \<Rightarrow> Some (Some (pos, 0, 0), out))"
    subgoal for m
      using tryLen_loop_flag [of dbg data pos m 4]
      by (cases rule: result_eq_cases) (auto split: option.splits)
    done
  then show ?thesis
    unfolding checkCandidate_def
    by (simp add: Let_def split: option.splits sum.splits prod.splits)
qed

lemma findValidStart_loop_flag:
  "result (findValidStart_loop dbg data fe ss) = result (findValidStart_loop False data fe ss)"
proof (induction dbg data fe ss rule: findValidStart_loop.induct)
  case (1 dbg data fe ss)
  show ?case
  proof (cases "ss > 0")
    case False
    then show ?thesis
      by (subst findValidStart_loop.simps, subst (2) findValidStart_loop.simps) simp
  next
    case True
    show ?thesis
    proof (cases "slice_to data ss")
      case None
      with True show ?thesis
        by (subst findValidStart_loop.simps, subst (2) findValidStart_loop.simps) simp
    next
      case (Some front)
      define pos where "pos = bytes_LastIndexByte front magicByte"
      show ?thesis
      proof (cases "pos = - 1")
        case True
        with \<open>ss > 0\<close> Some pos_def show ?thesis
          by (subst findValidStart_loop.simps, subst (2) findValidStart_loop.simps)
             (simp add: Let_def)
      next
        case False
        from checkCandidate_flag [of dbg data fe pos] show ?thesis
        proof (cases rule: result_eq_cases)
          case none
          with True Some False show ?thesis
            by (subst findValidStart_loop.simps, subst (2) findValidStart_loop.simps)
               (simp add: Let_def pos_def)
        next
          case (some x out1 out2)
          show ?thesis
          proof (cases x)
            case None
            with some True \<open>slice_to data ss = Some front\<close> False
              "1.IH" [OF True \<open>slice_to data ss = Some front\<close> pos_def False
                some(1) [unfolded None] refl refl]
            show ?thesis
              by (subst findValidStart_loop.simps, subst (2) findValidStart_loop.simps)
                 (simp add: Let_def pos_def)
          next
            case (Some r)
            with some True \<open>slice_to data ss = Some front\<close> False show ?thesis
              by (subst findValidStart_loop.simps, subst (2) findValidStart_loop.simps)
                 (simp add: Let_def pos_def)
          qed
        qed
      qed
    qed
  qed
qed

lemma findValidStartWithLength_flag:
  "result (findValidStartWithLength dbg data index) = result (findValidStartWithLength False data index)"
  unfolding findValidStartWithLength_def by (rule findValidStart_loop_flag)



lemma Scan_iteration_flag:
  "result (Scan_iteration dbg data totalOffset index) = result (Scan_iteration False data off index)"
proof (cases "filenameStart_loop data index")
  case None
  then show ?thesis by (simp add: Scan_iteration_def)
next
  case fs: (Some filenameStart)
  show ?thesis
  proof (cases "slice_between data filenameStart (index + len scan)")
    case None
    with fs show ?thesis by (simp add: Scan_iteration_def)
  next
    case fn: (Some filename)
    from findValidStartWithLength_flag [of dbg data index] show ?thesis
    proof (cases rule: result_eq_cases)
      case none
      with fs fn show ?thesis by (simp add: Scan_iteration_def)
    next
      case (some x out1 out2)
      obtain start pl pb where x: "x = (start, pl, pb)" by (cases x)
      show ?thesis
      proof (cases "start = - 1")
        case True
        with fs fn some x show ?thesis by (simp add: Scan_iteration_def)
      next
        case False
        show ?thesis
        proof (cases "slice_between data (if start > 10 then start - 10 else start)
                        (if start + 30 > len data then len data else start + 30)")
          case None
          with fs fn some x False show ?thesis by (simp add: Scan_iteration_def Let_def)
        next
          case ar: (Some around)
          show ?thesis
          proof (cases "pl > 0 \<and> start + pl \<le> len data")
            case True
            with fs fn some x False ar show ?thesis by (simp add: Scan_iteration_def Let_def)
          next
            case np: False
            show ?thesis
            proof (cases "consumeBytes data start")
              case None
              with fs fn some x False ar np show ?thesis
                by (simp add: Scan_iteration_def Let_def)
            next
              case (Some c)
              obtain n err where c: "c = (n, err)" by (cases c)
              with Some fs fn some x False ar np show ?thesis
                by (auto simp: Scan_iteration_def Let_def)
            qed
          qed
        qed
      qed
    qed
  qed
qed


lemma result_cons_cong:
  assumes "result a = result b"
  shows "result (case a of None \<Rightarrow> None | Some (results, out') \<Rightarrow> Some (x # results, out'))
   = result (case b of None \<Rightarrow> None | Some (results, out') \<Rightarrow> Some (x # results, out'))"
  using assms by (cases rule: result_eq_cases) auto

lemma Scan_loop_flag:
  "result (Scan_loop dbg data totalOffset) = result (Scan_loop False data totalOffset)"
proof (induction dbg data totalOffset rule: Scan_loop.induct)
  case (1 dbg data totalOffset)
  define index where "index = bytes_Index data scan"
  show ?case
  proof (cases "index = - 1")
    case True
    then show ?thesis
      by (subst Scan_loop.simps, subst (2) Scan_loop.simps) (simp add: index_def)
  next
    case False
    from Scan_iteration_flag [of dbg data totalOffset index totalOffset] show ?thesis
    proof (cases rule: result_eq_cases)
      case none
      with False show ?thesis
        by (subst Scan_loop.simps, subst (2) Scan_loop.simps) (simp add: index_def)
    next
      case (some it out1 out2)
      show ?thesis
      proof (cases it)
        case Break
        with some False show ?thesis
          by (subst Scan_loop.simps, subst (2) Scan_loop.simps) (simp add: index_def)
      next
        case Skip
        show ?thesis
        proof (cases "slice_from data (index + 1)")
          case None
          with Skip some False show ?thesis
            by (subst Scan_loop.simps, subst (2) Scan_loop.simps) (simp add: index_def)
        next
          case (Some data')
          from "1.IH"(1) [OF index_def False some(1) [unfolded Skip] refl refl Some]
          show ?thesis using Skip some False Some
            by (subst Scan_loop.simps, subst (2) Scan_loop.simps) (simp add: index_def)
        qed
      next
        case (Extract start n)
        show ?thesis
        proof (cases "slice_between data start (start + n)")
          case None
          with Extract some False show ?thesis
            by (subst Scan_loop.simps, subst (2) Scan_loop.simps) (simp add: index_def)
        next
          case res: (Some res)
          show ?thesis
          proof (cases "slice_from data (start + n)")
            case None
            with res Extract some False show ?thesis
              by (subst Scan_loop.simps, subst (2) Scan_loop.simps) (simp add: index_def)
          next
            case (Some data')
            from "1.IH"(2) [OF index_def False some(1) [unfolded Extract] refl refl res Some]
            have "result (Scan_loop dbg data' (totalOffset + start + n))
                  = result (Scan_loop False data' (totalOffset + start + n))" .
            from result_cons_cong [OF this, of "(totalOffset + start, res)"]
            show ?thesis using res Extract some False Some
              by (subst Scan_loop.simps, subst (2) Scan_loop.simps) (simp add: index_def)
          qed
        qed
      qed
    qed
  qed
qed

text \<open>
  \<open>ranges_from data lo rs\<close>: the results \<open>rs\<close> are ranges of \<open>data\<close>, each non-empty,
  each beginning at or after the end of the one before it, the first at or after \<open>lo\<close>.
\<close>

fun ranges_from :: "byte list \<Rightarrow> int \<Rightarrow> (int \<times> byte list) list \<Rightarrow> bool" where
  "ranges_from data lo [] = True"
| "ranges_from data lo ((s, bs) # rs) =
     (lo \<le> s \<and> bs \<noteq> [] \<and> s + len bs \<le> len data
      \<and> bs = take (length bs) (drop (nat s) data)
      \<and> ranges_from data (s + len bs) rs)"

lemma slice_from_drop:
  "slice_from (drop (nat off) data0) k = Some d \<Longrightarrow> 0 \<le> off \<Longrightarrow> off \<le> len data0 \<Longrightarrow>
     d = drop (nat (off + k)) data0 \<and> 0 \<le> k \<and> off + k \<le> len data0"
  by (auto simp: slice_from_def len_def nat_add_distrib add.commute split: if_splits)

lemma Scan_loop_ranges:
  "Scan_loop dbg data totalOffset = Some (results, out) \<Longrightarrow>
   data = drop (nat totalOffset) data0 \<Longrightarrow> 0 \<le> totalOffset \<Longrightarrow> totalOffset \<le> len data0 \<Longrightarrow>
   ranges_from data0 totalOffset results"
proof (induction dbg data totalOffset arbitrary: results out rule: Scan_loop.induct)
  case (1 dbg data totalOffset)
  define index where "index = bytes_Index data scan"
  note S = "1.prems"(1) [unfolded Scan_loop.simps [of dbg data totalOffset], folded index_def]
  have ld: "len data = len data0 - totalOffset" using "1.prems" by (simp add: len_def)
  show ?case
  proof (cases "index = - 1")
    case True
    with S show ?thesis by simp
  next
    case False
    then have i0: "0 \<le> index" using bytes_Index_range [of data scan] by (auto simp: index_def)
    from S False obtain it out1 where it: "Scan_iteration dbg data totalOffset index = Some (it, out1)"
      by (auto split: option.splits)
    show ?thesis
    proof (cases it)
      case Break
      with S False it show ?thesis by simp
    next
      case Skip
      with S False it obtain data' out2 where
        d: "slice_from data (index + 1) = Some data'"
        and r: "Scan_loop dbg data' (totalOffset + index + 1) = Some (results, out2)"
        by (auto simp: emit_eq_Some split: option.splits)
      from slice_from_drop [OF d [unfolded "1.prems"(2)] "1.prems"(3,4)]
      have d': "data' = drop (nat (totalOffset + index + 1)) data0"
        and b: "totalOffset + index + 1 \<le> len data0"
        by (simp_all add: add.assoc)
      have "ranges_from data0 (totalOffset + index + 1) results"
        using "1.IH"(1) [OF index_def False it [unfolded Skip] refl refl d r d'] b i0 "1.prems"(3)
        by simp
      moreover have "\<And>lo lo' rs. ranges_from data0 lo' rs \<Longrightarrow> lo \<le> lo' \<Longrightarrow> ranges_from data0 lo rs"
        subgoal for lo lo' rs by (cases rs) auto
        done
      ultimately show ?thesis using i0 by force
    next
      case (Extract start n)
      from Scan_iteration_Extract [OF it [unfolded Extract]]
      have e: "0 \<le> start" "0 < n" "start + n \<le> len data" by auto
      from S False it Extract obtain res data' rs out2 where
        s: "slice_between data start (start + n) = Some res"
        and d: "slice_from data (start + n) = Some data'"
        and r: "Scan_loop dbg data' (totalOffset + start + n) = Some (rs, out2)"
        and R: "results = (totalOffset + start, res) # rs"
        by (auto simp: emit_eq_Some split: option.splits)
      from slice_from_drop [OF d [unfolded "1.prems"(2)] "1.prems"(3,4)]
      have d': "data' = drop (nat (totalOffset + start + n)) data0"
        and b: "totalOffset + start + n \<le> len data0"
        by (simp_all add: add.assoc)
      have rec: "ranges_from data0 (totalOffset + start + n) rs"
        using "1.IH"(2) [OF index_def False it [unfolded Extract] refl refl s d r d'] b e "1.prems"(3)
        by simp
      from s have res: "res = take (nat n) (drop (nat start) data)"
        by (auto simp: slice_between_def split: if_splits)
      then have res0: "res = take (nat n) (drop (nat (totalOffset + start)) data0)"
        using e "1.prems" by (simp add: nat_add_distrib add.commute)
      have lres: "len res = n" using res e ld by (simp add: len_def)
      then have "length res = nat n" by (simp add: len_def)
      with res0 lres e b rec R "1.prems"(3) show ?thesis
        by (auto simp: add.assoc)
    qed
  qed
qed


lemma ranges_from_members:
  "ranges_from data lo rs \<Longrightarrow> (s, bs) \<in> set rs \<Longrightarrow>
     lo \<le> s \<and> bs \<noteq> [] \<and> s + len bs \<le> len data \<and> bs = take (length bs) (drop (nat s) data)"
proof (induction rs arbitrary: lo)
  case Nil
  then show ?case by simp
next
  case (Cons r rs)
  obtain s0 b0 where r: "r = (s0, b0)" by (cases r)
  from Cons.prems(1) r have h: "lo \<le> s0" "b0 \<noteq> []" "s0 + len b0 \<le> len data"
    "b0 = take (length b0) (drop (nat s0) data)" "ranges_from data (s0 + len b0) rs"
    by simp_all
  show ?case
  proof (cases "(s, bs) = r")
    case True
    with r h show ?thesis by auto
  next
    case False
    with Cons.prems(2) have "(s, bs) \<in> set rs" by simp
    from Cons.IH [OF h(5) this] h(1) show ?thesis by (simp add: len_def)
  qed
qed

lemma ranges_from_sorted:
  "ranges_from data lo rs \<Longrightarrow> sorted_wrt (\<lambda>(s1, b1) (s2, b2). s1 + len b1 \<le> s2) rs"
proof (induction rs arbitrary: lo)
  case Nil
  then show ?case by simp
next
  case (Cons r rs)
  obtain s0 b0 where r: "r = (s0, b0)" by (cases r)
  from Cons.prems r have h: "ranges_from data (s0 + len b0) rs" by simp
  have "\<forall>x\<in>set rs. case x of (s2, b2) \<Rightarrow> s0 + len b0 \<le> s2"
    using ranges_from_members [OF h] by auto
  with Cons.IH [OF h] r show ?case by simp
qed

lemma filenameStart_loop_ok:
  "0 \<le> fs \<Longrightarrow> fs \<le> len data \<Longrightarrow>
     \<exists>r. filenameStart_loop data fs = Some r \<and> 0 \<le> r \<and> r \<le> fs"
proof (induction data fs rule: filenameStart_loop.induct)
  case (1 data fs)
  show ?case
  proof (cases "fs > 0")
    case False
    with "1.prems" show ?thesis by (subst filenameStart_loop.simps) simp
  next
    case True
    with "1.prems" have i: "index_at data (fs - 1) = Some (data ! nat (fs - 1))"
      by (simp add: index_at_def)
    show ?thesis
    proof (cases "data ! nat (fs - 1) \<noteq> 0x0a \<and> data ! nat (fs - 1) \<ge> 0x20 \<and> data ! nat (fs - 1) \<le> 0x7e")
      case False
      with True i "1.prems" show ?thesis by (subst filenameStart_loop.simps) auto
    next
      case c: True
      from "1.IH" [OF True i c] True "1.prems"
      obtain r where "filenameStart_loop data (fs - 1) = Some r" "0 \<le> r" "r \<le> fs - 1" by auto
      with True i c show ?thesis by (subst filenameStart_loop.simps) auto
    qed
  qed
qed

lemma tryLen_body_ok:
  "1 \<le> t \<Longrightarrow> t \<le> pos \<Longrightarrow> pos \<le> len data \<Longrightarrow> tryLen_body dbg data pos m t \<noteq> None"
  unfolding tryLen_body_def
  by (simp add: Let_def slice_from_def split: sum.splits prod.splits)

lemma tryLen_loop_ok:
  "pos \<le> len data \<Longrightarrow> tryLen_loop dbg data pos m t \<noteq> None"
proof (induction dbg data pos m t rule: tryLen_loop.induct)
  case (1 dbg data pos m t)
  show ?case
  proof (cases "t \<ge> 1 \<and> pos \<ge> t")
    case False
    then show ?thesis by (subst tryLen_loop.simps) auto
  next
    case True
    with tryLen_body_ok [of t pos data dbg m] "1.prems"
    obtain r out where b: "tryLen_body dbg data pos m t = Some (r, out)" by auto
    show ?thesis
    proof (cases r)
      case None
      with "1.IH" [OF True b [unfolded None] refl refl "1.prems"] True b show ?thesis
        by (subst tryLen_loop.simps) simp
    next
      case (Some x)
      with True b show ?thesis by (subst tryLen_loop.simps) simp
    qed
  qed
qed

lemma checkCandidate_ok:
  assumes "0 \<le> pos" "pos \<le> len data" "fe \<le> len data"
  shows "checkCandidate dbg data fe pos \<noteq> None"
proof (cases "pos + 1 \<ge> len data")
  case True
  then show ?thesis by (simp add: checkCandidate_def)
next
  case False
  with assms have sf: "slice_from data (pos + 1) = Some (drop (nat (pos + 1)) data)"
    by (simp add: slice_from_def)
  show ?thesis
  proof (cases "ConsumeVarint (drop (nat (pos + 1)) data)")
    case (Inl e)
    with False sf show ?thesis by (simp add: checkCandidate_def)
  next
    case (Inr r)
    obtain fl vl where r: "r = (fl, vl)" by (cases r)
    have vl: "1 \<le> vl" using ConsumeVarint_bounds Inr r by blast
    show ?thesis
    proof (cases "go_int (pos + 1 + vl + int_of_uint64 fl) = fe
                  \<and> pos + 1 + vl < len data \<and> pos + 1 + vl < fe")
      case c: False
      with False sf Inr r show ?thesis by (auto simp: checkCandidate_def Let_def)
    next
      case c: True
      with assms vl obtain filename where
        sb: "slice_between data (pos + 1 + vl) fe = Some filename"
        by (auto simp: slice_between_def)
      show ?thesis
      proof (cases "list_all (\<lambda>b. \<not> (b < 0x20 \<or> b > 0x7e)) filename \<and> pos \<ge> 1")
        case v: False
        with False sf Inr r c sb show ?thesis by (auto simp: checkCandidate_def Let_def)
      next
        case v: True
        from tryLen_loop_ok [OF assms(2), of dbg "len filename + 50" 4]
        obtain x out where t: "tryLen_loop dbg data pos (len filename + 50) 4 = Some (x, out)"
          by auto
        with False sf Inr r c sb v show ?thesis
          by (cases x) (auto simp: checkCandidate_def Let_def)
      qed
    qed
  qed
qed

lemma findValidStart_loop_ok:
  "ss \<le> len data \<Longrightarrow> fe \<le> len data \<Longrightarrow> findValidStart_loop dbg data fe ss \<noteq> None"
proof (induction dbg data fe ss rule: findValidStart_loop.induct)
  case (1 dbg data fe ss)
  show ?case
  proof (cases "ss > 0")
    case False
    then show ?thesis by (subst findValidStart_loop.simps) simp
  next
    case True
    with "1.prems" have st: "slice_to data ss = Some (take (nat ss) data)"
      by (simp add: slice_to_def)
    define pos where "pos = bytes_LastIndexByte (take (nat ss) data) magicByte"
    show ?thesis
    proof (cases "pos = - 1")
      case True
      with \<open>ss > 0\<close> st show ?thesis
        by (subst findValidStart_loop.simps) (simp add: Let_def pos_def)
    next
      case False
      note P = LastIndexByte_slice_to [OF st False [unfolded pos_def], folded pos_def]
      with checkCandidate_ok [of pos data fe dbg] "1.prems"
      obtain r out where c: "checkCandidate dbg data fe pos = Some (r, out)" by auto
      show ?thesis
      proof (cases r)
        case None
        from "1.IH" [OF True st pos_def False c [unfolded None] refl refl _ "1.prems"(2)] P
        have "findValidStart_loop dbg data fe pos \<noteq> None" by simp
        with True st False c None show ?thesis
          by (subst findValidStart_loop.simps) (simp add: Let_def pos_def)
      next
        case (Some x)
        with True st False c show ?thesis
          by (subst findValidStart_loop.simps) (simp add: Let_def pos_def)
      qed
    qed
  qed
qed

lemma consumeBytes_loop_ok:
  "0 \<le> start \<Longrightarrow> start \<le> position \<Longrightarrow> position \<le> len data \<Longrightarrow>
     consumeBytes_loop data start position c \<noteq> None"
proof (induction data start position c rule: consumeBytes_loop.induct)
  case (1 data start position c)
  from "1.prems" have rest: "slice_from data position = Some (drop (nat position) data)"
    and tl: "slice_from data start = Some (drop (nat start) data)"
    by (simp_all add: slice_from_def)
  show ?case
  proof (cases "ConsumeField (drop (nat position) data)")
    case (Inl e)
    with rest show ?thesis by (subst consumeBytes_loop.simps) (simp add: Let_def)
  next
    case (Inr r)
    obtain number wt k where r: "r = (number, wt, k)" by (cases r)
    have k: "1 \<le> k \<and> k \<le> len (drop (nat position) data)"
      using ConsumeField_bounds Inr r by blast
    show ?thesis
    proof (cases "(number = 1 \<and> c) \<or> position + k - start \<ge> len (drop (nat start) data)")
      case True
      with rest tl Inr r show ?thesis
        by (subst consumeBytes_loop.simps) (auto simp: Let_def)
    next
      case False
      then have f1: "\<not> (number = 1 \<and> c)" and f2: "\<not> position + k - start \<ge> len (drop (nat start) data)"
        by auto
      have k0: "k \<noteq> 0" using k by simp
      have "position + k \<le> len data" using k "1.prems" by (simp add: len_def)
      with "1.IH" [OF rest Inr [unfolded r] refl refl k0 f1 refl refl tl f2] "1.prems" k
      have "consumeBytes_loop data start (position + k) (c \<or> number = 1) \<noteq> None" by simp
      with rest tl Inr r k0 f1 f2 show ?thesis
        by (subst consumeBytes_loop.simps) (simp add: Let_def)
    qed
  qed
qed

lemma len_scan [simp]: "len scan = 6"
  by (simp add: len_def scan_def)

lemma consumeBytes_ok:
  "0 \<le> start \<Longrightarrow> start \<le> len data \<Longrightarrow> consumeBytes data start \<noteq> None"
  unfolding consumeBytes_def by (rule consumeBytes_loop_ok) simp_all

lemma findValidStartWithLength_ok:
  "index + len scan \<le> len data \<Longrightarrow> findValidStartWithLength dbg data index \<noteq> None"
  unfolding findValidStartWithLength_def by (rule findValidStart_loop_ok) simp_all

lemma Scan_iteration_ok:
  assumes "0 \<le> index" "index + len scan \<le> len data"
  shows "\<exists>it out. Scan_iteration dbg data totalOffset index = Some (it, out) \<and> it \<noteq> Break
            \<and> (it = Skip \<longleftrightarrow>
                  (\<exists>start pl pb. result (findValidStartWithLength dbg data index) = Some (start, pl, pb)
                     \<and> (start = - 1
                        \<or> \<not> (pl > 0 \<and> start + pl \<le> len data)
                          \<and> (\<exists>n e. consumeBytes data start = Some (n, Some e)))))"
proof -
  from assms have il: "index \<le> len data" by simp
  from filenameStart_loop_ok [OF assms(1) il]
  obtain fs where fs: "filenameStart_loop data index = Some fs" "0 \<le> fs" "fs \<le> index" by auto
  with assms obtain filename where fn: "slice_between data fs (index + len scan) = Some filename"
    by (auto simp: slice_between_def)
  from findValidStartWithLength_ok [OF assms(2), of dbg]
  obtain start pl pb out1 where
    f: "findValidStartWithLength dbg data index = Some ((start, pl, pb), out1)"
    by auto
  show ?thesis
  proof (cases "start = - 1")
    case True
    with fs fn f show ?thesis by (simp add: Scan_iteration_def Let_def)
  next
    case False
    with findValidStartWithLength_start [OF f]
    have st: "0 \<le> start" "start < index" by auto
    with il have "slice_between data (if start > 10 then start - 10 else start)
             (if start + 30 > len data then len data else start + 30) \<noteq> None"
      by (simp add: slice_between_def)
    then obtain around where
      ar: "slice_between data (if start > 10 then start - 10 else start)
             (if start + 30 > len data then len data else start + 30) = Some around"
      by blast
    show ?thesis
    proof (cases "pl > 0 \<and> start + pl \<le> len data")
      case True
      with fs fn f False ar show ?thesis by (simp add: Scan_iteration_def Let_def)
    next
      case np: False
      from consumeBytes_ok [of start data] st il
      obtain n err where c: "consumeBytes data start = Some (n, err)" by auto
      show ?thesis
      proof (cases err)
        case None
        with fs fn f False ar np c show ?thesis by (auto simp: Scan_iteration_def Let_def)
      next
        case (Some e)
        with fs fn f False ar np c assms show ?thesis by (auto simp: Scan_iteration_def Let_def)
      qed
    qed
  qed
qed

lemma Scan_loop_ok: "Scan_loop dbg data totalOffset \<noteq> None"
proof (induction dbg data totalOffset rule: Scan_loop.induct)
  case (1 dbg data totalOffset)
  define index where "index = bytes_Index data scan"
  show ?case
  proof (cases "index = - 1")
    case True
    then show ?thesis by (subst Scan_loop.simps) (simp add: index_def)
  next
    case False
    then have i: "0 \<le> index" "index + len scan \<le> len data"
      using bytes_Index_range [of data scan] by (auto simp: index_def)
    from Scan_iteration_ok [OF i, of dbg totalOffset]
    obtain it out where it: "Scan_iteration dbg data totalOffset index = Some (it, out)" "it \<noteq> Break"
      by auto
    show ?thesis
    proof (cases it)
      case Break
      with it show ?thesis by simp
    next
      case Skip
      from i have sf: "slice_from data (index + 1) = Some (drop (nat (index + 1)) data)"
        by (simp add: slice_from_def)
      from "1.IH"(1) [OF index_def False it(1) [unfolded Skip] refl refl sf]
      obtain rs out2 where
        "Scan_loop dbg (drop (nat (index + 1)) data) (totalOffset + index + 1) = Some (rs, out2)"
        by auto
      then show ?thesis using False it(1) Skip sf
        by (subst Scan_loop.simps) (simp add: index_def Let_def)
    next
      case (Extract start n)
      from Scan_iteration_Extract [OF it(1) [unfolded Extract]]
      have e: "0 \<le> start" "0 < n" "start + n \<le> len data" by auto
      then have sb: "slice_between data start (start + n) = Some (take (nat n) (drop (nat start) data))"
        and sf: "slice_from data (start + n) = Some (drop (nat (start + n)) data)"
        by (simp_all add: slice_between_def slice_from_def)
      from "1.IH"(2) [OF index_def False it(1) [unfolded Extract] refl refl sb sf]
      obtain rs out2 where
        "Scan_loop dbg (drop (nat (start + n)) data) (totalOffset + start + n) = Some (rs, out2)"
        by auto
      then show ?thesis using False it(1) Extract sb sf
        by (subst Scan_loop.simps) (simp add: index_def Let_def)
    qed
  qed
qed

text \<open>
  \<open>Scan_passes\<close> counts how often a call of \<^verbatim>\<open>Scan\<close> reaches the head of its loop
  (line 170). It follows \<open>Scan_loop\<close> and keeps the count in place of the results.
\<close>

function Scan_passes :: "bool \<Rightarrow> byte list \<Rightarrow> int \<Rightarrow> nat" where
  "Scan_passes dbg data totalOffset =
     (let index = bytes_Index data scan in
      if index = - 1 then 1
      else
        (case Scan_iteration dbg data totalOffset index of
           None \<Rightarrow> 1
         | Some (Break, out) \<Rightarrow> 1
         | Some (Skip, out) \<Rightarrow>
             (case slice_from data (index + 1) of
                None \<Rightarrow> 1
              | Some data' \<Rightarrow> 1 + Scan_passes dbg data' (totalOffset + index + 1))
         | Some (Extract start n, out) \<Rightarrow>
             (case slice_between data start (start + n) of
                None \<Rightarrow> 1
              | Some candidate \<Rightarrow>
                  (case slice_from data (start + n) of
                     None \<Rightarrow> 1
                   | Some data' \<Rightarrow> 1 + Scan_passes dbg data' (totalOffset + start + n)))))"
  by pat_completeness auto
termination
proof (relation "measure (\<lambda>(dbg, data, totalOffset). length data)", goal_cases)
  case 1
  show ?case by simp
next
  case (2 dbg data totalOffset index r it out data')
  then have "0 \<le> index" using bytes_Index_range [of data scan] by auto
  with 2 show ?case using slice_from_shorter [of data "index + 1" data'] by simp
next
  case (3 dbg data totalOffset index r it out start n res data')
  then have "Scan_iteration dbg data totalOffset index = Some (Extract start n, out)" by simp
  from Scan_iteration_Extract [OF this] 3 show ?case
    using slice_from_shorter [of data "start + n" data'] by simp
qed

declare Scan_passes.simps [simp del]

lemma Scan_passes_bound: "Scan_passes dbg data totalOffset \<le> length data + 1"
proof (induction dbg data totalOffset rule: Scan_passes.induct)
  case (1 dbg data totalOffset)
  define index where "index = bytes_Index data scan"
  show ?case
  proof (cases "index = - 1")
    case True
    then show ?thesis by (subst Scan_passes.simps) (simp add: index_def)
  next
    case False
    then have i: "0 \<le> index" using bytes_Index_range [of data scan] by (auto simp: index_def)
    show ?thesis
    proof (cases "Scan_iteration dbg data totalOffset index")
      case None
      with False show ?thesis by (subst Scan_passes.simps) (simp add: index_def)
    next
      case (Some p)
      obtain it out where p: "p = (it, out)" by (cases p)
      show ?thesis
      proof (cases it)
        case Break
        with Some p False show ?thesis by (subst Scan_passes.simps) (simp add: index_def)
      next
        case Skip
        show ?thesis
        proof (cases "slice_from data (index + 1)")
          case None
          with Skip Some p False show ?thesis
            by (subst Scan_passes.simps) (simp add: index_def)
        next
          case sf: (Some data')
          from slice_from_shorter [OF sf] i have "length data' < length data" by simp
          with "1.IH"(1) [OF index_def False Some [unfolded p Skip] refl refl sf]
          show ?thesis using Skip Some p False sf
            by (subst Scan_passes.simps) (simp add: index_def Let_def)
        qed
      next
        case (Extract start n)
        from Scan_iteration_Extract [OF Some [unfolded p Extract]]
        have e: "0 \<le> start" "0 < n" by auto
        show ?thesis
        proof (cases "slice_between data start (start + n)")
          case None
          with Extract Some p False show ?thesis
            by (subst Scan_passes.simps) (simp add: index_def)
        next
          case sb: (Some res)
          show ?thesis
          proof (cases "slice_from data (start + n)")
            case None
            with sb Extract Some p False show ?thesis
              by (subst Scan_passes.simps) (simp add: index_def)
          next
            case sf: (Some data')
            from slice_from_shorter [OF sf] e have "length data' < length data" by simp
            with "1.IH"(2) [OF index_def False Some [unfolded p Extract] refl refl sb sf]
            show ?thesis using Extract Some p False sb sf
              by (subst Scan_passes.simps) (simp add: index_def Let_def)
          qed
        qed
      qed
    qed
  qed
qed

lemma Scan_loop_Skip:
  assumes "bytes_Index data scan \<noteq> - 1"
    and "Scan_iteration dbg data totalOffset (bytes_Index data scan) = Some (Skip, out)"
  shows "result (Scan_loop dbg data totalOffset)
         = result (Scan_loop dbg (drop (nat (bytes_Index data scan + 1)) data)
                     (totalOffset + bytes_Index data scan + 1))"
proof -
  have "0 \<le> bytes_Index data scan" "bytes_Index data scan + len scan \<le> len data"
    using bytes_Index_range [of data scan] assms(1) by auto
  then have "slice_from data (bytes_Index data scan + 1)
             = Some (drop (nat (bytes_Index data scan + 1)) data)"
    by (simp add: slice_from_def)
  with assms show ?thesis
    by (subst Scan_loop.simps) (simp add: Let_def)
qed

lemma Scan_loop_Extract:
  assumes "bytes_Index data scan \<noteq> - 1"
    and "Scan_iteration dbg data totalOffset (bytes_Index data scan) = Some (Extract start n, out)"
  shows "result (Scan_loop dbg data totalOffset)
         = map_option (\<lambda>rs. (totalOffset + start, take (nat n) (drop (nat start) data)) # rs)
             (result (Scan_loop dbg (drop (nat (start + n)) data) (totalOffset + start + n)))"
proof -
  from Scan_iteration_Extract [OF assms(2)]
  have e: "0 \<le> start" "0 < n" "start + n \<le> len data" by auto
  then have sb: "slice_between data start (start + n) = Some (take (nat n) (drop (nat start) data))"
    and sf: "slice_from data (start + n) = Some (drop (nat (start + n)) data)"
    by (simp_all add: slice_between_def slice_from_def)
  show ?thesis
    using assms sb sf
    by (subst Scan_loop.simps)
       (cases "Scan_loop dbg (drop (nat (start + n)) data) (totalOffset + start + n)",
        auto simp: Let_def)
qed

text \<open>
  The reading of \<^verbatim>\<open>consumeBytes\<close> that the specification gives. \<open>consumes data seen p seen' q\<close>:
  from offset \<open>p\<close>, whole records are consumed up to offset \<open>q\<close>; each of them lies at an
  offset inside the buffer, decodes, has a length other than zero and is not a second
  record of field 1 (\<open>seen\<close> says whether a record of field 1 was consumed before \<open>p\<close>,
  \<open>seen'\<close> whether one was before \<open>q\<close>). \<open>natural_end\<close> holds at an offset where the
  consumption ends without an error: the end of the buffer, a decode attempt that reports
  an invalid field number, a record of length zero, or a second record of field 1.
  \<open>decode_failure\<close> holds at an offset where the decode attempt fails in any other way,
  with the message of the error \<^verbatim>\<open>consumeBytes\<close> returns.
\<close>

inductive consumes :: "byte list \<Rightarrow> bool \<Rightarrow> int \<Rightarrow> bool \<Rightarrow> int \<Rightarrow> bool" for data where
  consumes_none: "consumes data seen p seen p"
| consumes_record:
    "0 \<le> p \<Longrightarrow> p < len data \<Longrightarrow> ConsumeField (drop (nat p) data) = Inr (number, wt, k) \<Longrightarrow>
     k \<noteq> 0 \<Longrightarrow> \<not> (number = 1 \<and> seen) \<Longrightarrow>
     consumes data (seen \<or> number = 1) (p + k) seen' q \<Longrightarrow>
     consumes data seen p seen' q"

code_pred consumes .

definition natural_end :: "byte list \<Rightarrow> bool \<Rightarrow> int \<Rightarrow> bool" where
  "natural_end data seen q =
     (q \<ge> len data
      \<or> (case ConsumeField (drop (nat q) data) of
            Inl e \<Rightarrow> e = errCodeFieldNumber
          | Inr (number, wt, k) \<Rightarrow> k = 0 \<or> (number = 1 \<and> seen)))"

definition decode_failure :: "byte list \<Rightarrow> int \<Rightarrow> string \<Rightarrow> bool" where
  "decode_failure data q msg =
     (q < len data
      \<and> (case ConsumeField (drop (nat q) data) of
            Inl e \<Rightarrow> e \<noteq> errCodeFieldNumber \<and> msg = ''couldn't consume proto bytes: '' @ ParseError e
          | Inr r \<Rightarrow> False))"

lemma consumeBytes_loop_segment:
  "0 \<le> start \<Longrightarrow> start \<le> position \<Longrightarrow> position < len data \<Longrightarrow>
   \<exists>n err seen'. consumeBytes_loop data start position seen = Some (n, err)
      \<and> consumes data seen position seen' (start + n)
      \<and> (case err of None \<Rightarrow> natural_end data seen' (start + n)
                    | Some msg \<Rightarrow> decode_failure data (start + n) msg)"
proof (induction data start position seen rule: consumeBytes_loop.induct)
  case (1 data start position c)
  from "1.prems" have rest: "slice_from data position = Some (drop (nat position) data)"
    and tl: "slice_from data start = Some (drop (nat start) data)"
    by (simp_all add: slice_from_def)
  have ltl: "len (drop (nat start) data) = len data - start" using "1.prems" by (simp add: len_def)
  show ?case
  proof (cases "ConsumeField (drop (nat position) data)")
    case (Inl e)
    show ?thesis
    proof (cases "e = errCodeFieldNumber")
      case True
      with Inl rest have "consumeBytes_loop data start position c = Some (position - start, None)"
        by (subst consumeBytes_loop.simps) (simp add: Let_def not_field_number_message)
      moreover have "natural_end data c position" using Inl True by (simp add: natural_end_def)
      ultimately show ?thesis using consumes_none [of data c position] by auto
    next
      case False
      with Inl rest have "consumeBytes_loop data start position c
          = Some (position - start, Some (''couldn't consume proto bytes: '' @ ParseError e))"
        by (subst consumeBytes_loop.simps) (simp add: Let_def not_field_number_message)
      moreover have "decode_failure data position (''couldn't consume proto bytes: '' @ ParseError e)"
        using Inl False "1.prems" by (simp add: decode_failure_def)
      ultimately show ?thesis using consumes_none [of data c position] by auto
    qed
  next
    case (Inr r)
    obtain number wt k where r: "r = (number, wt, k)" by (cases r)
    have k: "1 \<le> k \<and> k \<le> len (drop (nat position) data)"
      using ConsumeField_bounds Inr r by blast
    then have k0: "k \<noteq> 0" by simp
    show ?thesis
    proof (cases "number = 1 \<and> c")
      case True
      with Inr r rest k0 have "consumeBytes_loop data start position c = Some (position - start, None)"
        by (subst consumeBytes_loop.simps) (simp add: Let_def)
      moreover have "natural_end data c position" using Inr r True by (simp add: natural_end_def)
      ultimately show ?thesis using consumes_none [of data c position] by auto
    next
      case f1: False
      have step: "\<And>s' q. consumes data (c \<or> number = 1) (position + k) s' q \<Longrightarrow>
                     consumes data c position s' q"
        using consumes_record [of position data number wt k c] "1.prems" Inr r k0 f1
        by auto
      show ?thesis
      proof (cases "position + k - start \<ge> len (drop (nat start) data)")
        case True
        with Inr r rest tl k0 f1
        have "consumeBytes_loop data start position c = Some (position + k - start, None)"
          by (subst consumeBytes_loop.simps) (simp add: Let_def)
        moreover have "natural_end data (c \<or> number = 1) (position + k)"
          using True ltl by (simp add: natural_end_def)
        moreover have "consumes data c position (c \<or> number = 1) (position + k)"
          by (rule step) (rule consumes_none)
        ultimately show ?thesis by auto
      next
        case f2: False
        then have pl: "position + k < len data" using ltl by simp
        from "1.IH" [OF rest Inr [unfolded r] refl refl k0 f1 refl refl tl f2 "1.prems"(1) _ pl]
          "1.prems"(2) k
        obtain n err seen' where
          rec: "consumeBytes_loop data start (position + k) (c \<or> number = 1) = Some (n, err)"
          and seg: "consumes data (c \<or> number = 1) (position + k) seen' (start + n)"
          and fin: "(case err of None \<Rightarrow> natural_end data seen' (start + n)
                    | Some msg \<Rightarrow> decode_failure data (start + n) msg)"
          by auto
        from Inr r rest tl k0 f1 f2 rec
        have "consumeBytes_loop data start position c = Some (n, err)"
          by (subst consumeBytes_loop.simps) (auto simp: Let_def)
        with step [OF seg] fin show ?thesis by blast
      qed
    qed
  qed
qed


lemma Scan_iteration_error:
  assumes "0 \<le> index" "index + len scan \<le> len data"
    and "result (findValidStartWithLength dbg data index) = Some (start, pl, pb)"
    and "start \<noteq> - 1" "\<not> (pl > 0 \<and> start + pl \<le> len data)"
    and "consumeBytes data start = Some (n, Some msg)"
  shows "\<exists>out. Scan_iteration dbg data totalOffset index = Some (Skip, out)
           \<and> (''%v\<newline>'', [AErr (Some msg)]) \<in> set out"
proof -
  from assms have il: "index \<le> len data" by simp
  from filenameStart_loop_ok [OF assms(1) il]
  obtain fs where fs: "filenameStart_loop data index = Some fs" "0 \<le> fs" "fs \<le> index" by auto
  with assms obtain filename where fn: "slice_between data fs (index + len scan) = Some filename"
    by (auto simp: slice_between_def)
  from assms(3) obtain out1 where
    f: "findValidStartWithLength dbg data index = Some ((start, pl, pb), out1)"
    by (auto simp: result_eq_Some)
  with findValidStartWithLength_start [OF f] assms(4)
  have st: "0 \<le> start" "start < index" by auto
  with il have "slice_between data (if start > 10 then start - 10 else start)
           (if start + 30 > len data then len data else start + 30) \<noteq> None"
    by (simp add: slice_between_def)
  then obtain around where
    ar: "slice_between data (if start > 10 then start - 10 else start)
           (if start + 30 > len data then len data else start + 30) = Some around"
    by blast
  from fs fn f assms(4,5,6) ar assms(1,2) show ?thesis
    by (auto simp: Scan_iteration_def Let_def)
qed

text \<open>
  The loop over \<^verbatim>\<open>tryLen\<close> begins at 4 and its condition asks for \<^verbatim>\<open>pos >= tryLen\<close>:
  for a start at an offset below 4 the condition fails before the first pass, and no
  width is tried at all.
\<close>

lemma tryLen_loop_below_4:
  "pos < 4 \<Longrightarrow> tryLen_loop dbg data pos minValidLength 4 = Some (None, [])"
  by (subst tryLen_loop.simps) simp

section \<open>Go strings used by the renderer\<close>

text \<open>
  A Go string is a sequence of bytes, here a \<^typ>\<open>string\<close> (a list of 8-bit characters).
  The functions of the packages \<^verbatim>\<open>strings\<close>, \<^verbatim>\<open>strconv\<close> and \<^verbatim>\<open>fmt\<close> that
  \<^verbatim>\<open>proto.go\<close> calls are modelled after the Go standard library.
\<close>

definition newline :: string where
  "newline = [CHR 0x0A]"

definition quote :: string where
  "quote = [CHR 0x22]"

definition strings_Repeat :: "string \<Rightarrow> int \<Rightarrow> string" where
  "strings_Repeat s count = concat (replicate (nat count) s)"

definition strings_HasSuffix :: "string \<Rightarrow> string \<Rightarrow> bool" where
  "strings_HasSuffix s suffix =
     (length suffix \<le> length s \<and> drop (length s - length suffix) s = suffix)"

definition strings_TrimSuffix :: "string \<Rightarrow> string \<Rightarrow> string" where
  "strings_TrimSuffix s suffix =
     (if strings_HasSuffix s suffix then take (length s - length suffix) s else s)"

text \<open>\<^verbatim>\<open>strings.Split\<close> for a separator of one byte, the only use in \<^verbatim>\<open>proto.go\<close>.\<close>

fun strings_Split :: "string \<Rightarrow> char \<Rightarrow> string list" where
  "strings_Split [] sep = [[]]"
| "strings_Split (c # cs) sep =
     (if c = sep then [] # strings_Split cs sep
      else (case strings_Split cs sep of
              [] \<Rightarrow> [[c]]
            | part # parts \<Rightarrow> (c # part) # parts))"

fun strings_Join :: "string list \<Rightarrow> string \<Rightarrow> string" where
  "strings_Join [] sep = []"
| "strings_Join [part] sep = part"
| "strings_Join (part # parts) sep = part @ sep @ strings_Join parts sep"

text \<open>\<^verbatim>\<open>strconv.Itoa\<close>, and \<^verbatim>\<open>fmt.Sprintf("%d", ...)\<close>: the decimal digits, with a sign.\<close>

function digits :: "int \<Rightarrow> string" where
  "digits n =
     (if n < 10 then [char_of (48 + n)]
      else digits (n div 10) @ [char_of (48 + n mod 10)])"
  by pat_completeness auto
termination
  by (relation "measure nat") auto

declare digits.simps [simp del]

definition strconv_Itoa :: "int \<Rightarrow> string" where
  "strconv_Itoa i = (if i < 0 then ''-'' @ digits (- i) else digits i)"

text \<open>
  \<^verbatim>\<open>strings.TrimSpace\<close> removes the characters of Unicode's White Space property from
  both ends. In a byte string these are the six ASCII characters tab, line feed, vertical
  tab, form feed, carriage return and space, and the UTF-8 encodings of U+0085, U+00A0,
  U+1680, U+2000 to U+200A, U+2028, U+2029, U+202F, U+205F and U+3000.
\<close>

definition space_encodings :: "string list" where
  "space_encodings =
     [[CHR 0x09], [CHR 0x0A], [CHR 0x0B], [CHR 0x0C], [CHR 0x0D], [CHR 0x20],
      [CHR 0xC2, CHR 0x85], [CHR 0xC2, CHR 0xA0],
      [CHR 0xE1, CHR 0x9A, CHR 0x80],
      [CHR 0xE2, CHR 0x80, CHR 0x80], [CHR 0xE2, CHR 0x80, CHR 0x81],
      [CHR 0xE2, CHR 0x80, CHR 0x82], [CHR 0xE2, CHR 0x80, CHR 0x83],
      [CHR 0xE2, CHR 0x80, CHR 0x84], [CHR 0xE2, CHR 0x80, CHR 0x85],
      [CHR 0xE2, CHR 0x80, CHR 0x86], [CHR 0xE2, CHR 0x80, CHR 0x87],
      [CHR 0xE2, CHR 0x80, CHR 0x88], [CHR 0xE2, CHR 0x80, CHR 0x89],
      [CHR 0xE2, CHR 0x80, CHR 0x8A],
      [CHR 0xE2, CHR 0x80, CHR 0xA8], [CHR 0xE2, CHR 0x80, CHR 0xA9],
      [CHR 0xE2, CHR 0x80, CHR 0xAF], [CHR 0xE2, CHR 0x81, CHR 0x9F],
      [CHR 0xE3, CHR 0x80, CHR 0x80]]"

definition leading_space :: "string \<Rightarrow> string option" where
  "leading_space s = find (\<lambda>p. take (length p) s = p) space_encodings"

definition trailing_space :: "string \<Rightarrow> string option" where
  "trailing_space s = find (\<lambda>p. strings_HasSuffix s p) space_encodings"

lemma space_encodings_nonempty: "p \<in> set space_encodings \<Longrightarrow> p \<noteq> []"
  by (auto simp: space_encodings_def)

lemma leading_space_Some:
  "leading_space s = Some p \<Longrightarrow> p \<noteq> [] \<and> take (length p) s = p \<and> length p \<le> length s"
proof -
  assume a: "leading_space s = Some p"
  then have 1: "p \<in> set space_encodings" and 2: "take (length p) s = p"
    by (auto simp: leading_space_def find_Some_iff)
  from 2 have "length (take (length p) s) = length p" by simp
  then have "length p \<le> length s" by (simp only: length_take)
  with 1 2 space_encodings_nonempty show ?thesis by blast
qed

lemma trailing_space_Some:
  "trailing_space s = Some p \<Longrightarrow> p \<noteq> [] \<and> strings_HasSuffix s p"
  by (auto simp: trailing_space_def find_Some_iff dest: space_encodings_nonempty [OF nth_mem])

function trim_left :: "string \<Rightarrow> string" where
  "trim_left s =
     (case leading_space s of None \<Rightarrow> s | Some p \<Rightarrow> trim_left (drop (length p) s))"
  by pat_completeness auto
termination
proof (relation "measure length", goal_cases)
  case 1
  show ?case by simp
next
  case (2 s p)
  from leading_space_Some [OF 2] show ?case by (cases p) auto
qed

function trim_right :: "string \<Rightarrow> string" where
  "trim_right s =
     (case trailing_space s of
        None \<Rightarrow> s
      | Some p \<Rightarrow> trim_right (take (length s - length p) s))"
  by pat_completeness auto
termination
proof (relation "measure length", goal_cases)
  case 1
  show ?case by simp
next
  case (2 s p)
  from trailing_space_Some [OF 2] show ?case
    by (cases p) (auto simp: strings_HasSuffix_def)
qed

declare trim_left.simps [simp del] trim_right.simps [simp del]

definition strings_TrimSpace :: "string \<Rightarrow> string" where
  "strings_TrimSpace s = trim_right (trim_left s)"

section \<open>Descriptors\<close>

text \<open>
  \<^verbatim>\<open>proto.go\<close> reads a file descriptor through the interfaces of
  \<^verbatim>\<open>google.golang.org/protobuf/reflect/protoreflect\<close>. A descriptor is modelled by
  the values its accessor methods return: a list for \<^verbatim>\<open>Len\<close> and \<^verbatim>\<open>Get\<close>, a string for
  a name or a full name, \<open>None\<close> for a \<^verbatim>\<open>nil\<close> descriptor. Field numbers are \<^verbatim>\<open>int32\<close>.
\<close>

type_synonym int32 = "32 word"

definition int32 :: "int \<Rightarrow> int32" where
  "int32 i = word_of_int i"

datatype Syntax = Proto2 | Proto3 | Editions

fun Syntax_String :: "Syntax \<Rightarrow> string" where
  "Syntax_String Proto2 = ''proto2''"
| "Syntax_String Proto3 = ''proto3''"
| "Syntax_String Editions = ''editions''"

datatype Kind =
  BoolKind | EnumKind | Int32Kind | Sint32Kind | Uint32Kind | Int64Kind | Sint64Kind
  | Uint64Kind | Sfixed32Kind | Fixed32Kind | FloatKind | Sfixed64Kind | Fixed64Kind
  | DoubleKind | StringKind | BytesKind | MessageKind | GroupKind

fun Kind_String :: "Kind \<Rightarrow> string" where
  "Kind_String BoolKind = ''bool''"
| "Kind_String EnumKind = ''enum''"
| "Kind_String Int32Kind = ''int32''"
| "Kind_String Sint32Kind = ''sint32''"
| "Kind_String Uint32Kind = ''uint32''"
| "Kind_String Int64Kind = ''int64''"
| "Kind_String Sint64Kind = ''sint64''"
| "Kind_String Uint64Kind = ''uint64''"
| "Kind_String Sfixed32Kind = ''sfixed32''"
| "Kind_String Fixed32Kind = ''fixed32''"
| "Kind_String FloatKind = ''float''"
| "Kind_String Sfixed64Kind = ''sfixed64''"
| "Kind_String Fixed64Kind = ''fixed64''"
| "Kind_String DoubleKind = ''double''"
| "Kind_String StringKind = ''string''"
| "Kind_String BytesKind = ''bytes''"
| "Kind_String MessageKind = ''message''"
| "Kind_String GroupKind = ''group''"

datatype Cardinality = Optional | Required | Repeated

fun Cardinality_String :: "Cardinality \<Rightarrow> string" where
  "Cardinality_String Optional = ''optional''"
| "Cardinality_String Required = ''required''"
| "Cardinality_String Repeated = ''repeated''"

text \<open>
  A field descriptor. \<open>field_Default\<close> is \<^verbatim>\<open>Default().String()\<close>, \<open>field_DefaultEnumValue\<close>
  is \<^verbatim>\<open>DefaultEnumValue().Name()\<close>, \<open>field_Message\<close> and \<open>field_Enum\<close> are the full names
  of \<^verbatim>\<open>Message()\<close> and \<^verbatim>\<open>Enum()\<close>, \<open>field_ContainingOneof\<close> is the name of the oneof the
  field belongs to.
\<close>

datatype FieldDescriptor = FieldDescriptor
  (field_Name: string)
  (field_Number: int32)
  (field_Kind: Kind)
  (field_Cardinality: Cardinality)
  (field_HasOptionalKeyword: bool)
  (field_HasDefault: bool)
  (field_Default: string)
  (field_DefaultEnumValue: string)
  (field_Message: string)
  (field_Enum: string)
  (field_MapKey: "FieldDescriptor option")
  (field_MapValue: "FieldDescriptor option")
  (field_ContainingOneof: "string option")

record OneofDescriptor =
  oneof_Name :: string
  oneof_Fields :: "FieldDescriptor list"

text \<open>
  \<^verbatim>\<open>OneofDescriptor.IsSynthetic\<close>, as protoreflect documents and implements it: the
  oneof was created for a proto3 optional field; it then holds exactly one field, and
  that field has the optional keyword. The syntax is that of the file of the oneof.
\<close>

definition IsSynthetic :: "Syntax \<Rightarrow> OneofDescriptor \<Rightarrow> bool" where
  "IsSynthetic syntax oneof =
     (syntax = Proto3 \<and> length (oneof_Fields oneof) = 1
      \<and> field_HasOptionalKeyword (oneof_Fields oneof ! 0))"

record EnumDescriptor =
  enum_Name :: string
  enum_Values :: "(string \<times> int32) list"

text \<open>
  A message descriptor. A reserved range is the array \<^verbatim>\<open>[2]FieldNumber\<close> that
  \<^verbatim>\<open>ReservedRanges().Get(i)\<close> returns: the lower bound and the exclusive upper bound.
\<close>

datatype MessageDescriptor = MessageDescriptor
  (message_Name: string)
  (message_ReservedNames: "string list")
  (message_ReservedRanges: "(int32 \<times> int32) list")
  (message_Messages: "MessageDescriptor list")
  (message_Enums: "EnumDescriptor list")
  (message_Fields: "FieldDescriptor list")
  (message_Oneofs: "OneofDescriptor list")

record MethodDescriptor =
  method_Name :: string
  method_IsStreamingClient :: bool
  method_IsStreamingServer :: bool
  method_Input :: string
  method_Output :: string

record ServiceDescriptor =
  service_Name :: string
  service_Methods :: "MethodDescriptor list"

record FileImport =
  import_Path :: string
  import_IsPublic :: bool

record FileDescriptor =
  file_Syntax :: Syntax
  file_FullName :: string
  file_Imports :: "FileImport list"
  file_Services :: "ServiceDescriptor list"
  file_Messages :: "MessageDescriptor list"
  file_Enums :: "EnumDescriptor list"

text \<open>
  The file options of \<^verbatim>\<open>descriptorpb.FileOptions\<close> that \<^verbatim>\<open>writeFileOptions\<close> looks up by
  reflection. Each is a pointer in Go: \<open>None\<close> is \<^verbatim>\<open>nil\<close>.
\<close>

record FileOptions =
  JavaPackage :: "string option"
  JavaOuterClassname :: "string option"
  JavaMultipleFiles :: "bool option"
  JavaStringCheckUtf8 :: "bool option"
  GoPackage :: "string option"
  CcEnableArenas :: "bool option"
  ObjcClassPrefix :: "string option"
  CsharpNamespace :: "string option"
  SwiftPrefix :: "string option"
  PhpClassPrefix :: "string option"
  PhpNamespace :: "string option"
  PhpMetadataNamespace :: "string option"
  RubyPackage :: "string option"

section \<open>proto.go\<close>

record CommentInfo =
  LeadingComments :: string
  TrailingComments :: string
  LeadingDetachedComments :: "string list"

text \<open>
  The state of a \<^verbatim>\<open>ProtoDefinition\<close>: the text written so far (\<^verbatim>\<open>builder\<close>), the
  indentation, the options of \<^verbatim>\<open>pb\<close>, the descriptor and the comment map. A method
  with the receiver \<^verbatim>\<open>pd *ProtoDefinition\<close> takes the state and returns the new one. A
  look-up in a \<^verbatim>\<open>nil\<close> map finds nothing, as in the empty map.
\<close>

record ProtoDefinition =
  builder :: string
  indendation :: int
  pb_Options :: "FileOptions option"
  descriptor :: FileDescriptor
  comments :: "string \<rightharpoonup> CommentInfo"

text \<open>\<open>run ws pd\<close>: the calls \<open>ws\<close> one after the other, the first one first.\<close>

definition run :: "('s \<Rightarrow> 's) list \<Rightarrow> 's \<Rightarrow> 's" where
  "run ws pd = fold (\<lambda>w. w) ws pd"

text \<open>
  \<open>for_indexed body i xs pd\<close>: the loop \<^verbatim>\<open>for i := 0; i < xs.Len(); i++\<close> with the body
  applied to \<open>i\<close> and \<^verbatim>\<open>xs.Get(i)\<close>, from the index \<open>i\<close> of the head of \<open>xs\<close> on.
\<close>

fun for_indexed :: "(int \<Rightarrow> 'a \<Rightarrow> 's \<Rightarrow> 's) \<Rightarrow> int \<Rightarrow> 'a list \<Rightarrow> 's \<Rightarrow> 's" where
  "for_indexed body i [] pd = pd"
| "for_indexed body i (x # xs) pd = for_indexed body (i + 1) xs (body i x pd)"

definition pathKey :: "int32 list \<Rightarrow> string" where
  "pathKey path = strings_Join (map (\<lambda>p. strconv_Itoa (sint p)) path) ''.''"

definition getComments :: "int32 list \<Rightarrow> ProtoDefinition \<Rightarrow> CommentInfo option" where
  "getComments path pd = comments pd (pathKey path)"

definition write' :: "string \<Rightarrow> ProtoDefinition \<Rightarrow> ProtoDefinition" where
  "write' s pd = pd\<lparr>builder := builder pd @ s\<rparr>"

definition writeIndented :: "string \<Rightarrow> ProtoDefinition \<Rightarrow> ProtoDefinition" where
  "writeIndented s pd =
     write' s (pd\<lparr>builder := builder pd @ strings_Repeat ''  '' (indendation pd)\<rparr>)"

definition indent :: "ProtoDefinition \<Rightarrow> ProtoDefinition" where
  "indent pd = pd\<lparr>indendation := indendation pd + 1\<rparr>"

definition dedent :: "ProtoDefinition \<Rightarrow> ProtoDefinition" where
  "dedent pd = pd\<lparr>indendation := indendation pd - 1\<rparr>"

definition writeComment :: "string \<Rightarrow> ProtoDefinition \<Rightarrow> ProtoDefinition" where
  "writeComment comment pd =
     (if comment = [] then pd
      else
        (let comment = strings_TrimSuffix comment newline;
             lines = strings_Split comment (CHR 0x0A)
         in fold (\<lambda>line. run [writeIndented ''//'', write' line, write' newline]) lines pd))"

definition writeLeadingComments :: "int32 list \<Rightarrow> ProtoDefinition \<Rightarrow> ProtoDefinition" where
  "writeLeadingComments path pd =
     (case getComments path pd of
        None \<Rightarrow> pd
      | Some info \<Rightarrow>
          (let pd = fold (\<lambda>comment. run [writeComment comment, write' newline])
                      (LeadingDetachedComments info) pd
           in if LeadingComments info \<noteq> [] then writeComment (LeadingComments info) pd
              else pd))"

definition writeTrailingComment :: "int32 list \<Rightarrow> ProtoDefinition \<Rightarrow> ProtoDefinition" where
  "writeTrailingComment path pd =
     (case getComments path pd of
        None \<Rightarrow> pd
      | Some info \<Rightarrow>
          if TrailingComments info = [] then pd
          else
            (let comment = strings_TrimSpace (TrailingComments info) in
             if comment \<noteq> [] then
               (let comment = strings_TrimSuffix comment newline in
                if \<not> strings_Contains comment newline
                then run [write' '' //'', write' comment] pd
                else pd)
             else pd))"

text \<open>
  The method \<^verbatim>\<open>write\<close> is \<open>write'\<close> here, because \<^verbatim>\<open>write\<close> is a keyword of Isabelle.

  \<^verbatim>\<open>writeType\<close>. No \<^verbatim>\<open>Kind\<close> has the name \<^verbatim>\<open>map\<close>, so the third branch is never taken;
  in it, a \<^verbatim>\<open>nil\<close> key or value descriptor (on which Go would panic) writes nothing.
\<close>

fun writeType :: "FieldDescriptor \<Rightarrow> ProtoDefinition \<Rightarrow> ProtoDefinition" where
  "writeType (FieldDescriptor name number fkind cardinality hasOptionalKeyword hasDefault
       dflt defaultEnumValue messageName enumName mapKey mapValue containingOneof) pd =
     (let kind = Kind_String fkind in
      if kind = ''message'' then run [write' ''.'', write' messageName] pd
      else if kind = ''enum'' then run [write' ''.'', write' enumName] pd
      else if kind = ''map'' then
        (let pd = write' ''map<'' pd;
             pd = (case mapKey of None \<Rightarrow> pd | Some k \<Rightarrow> writeType k pd);
             pd = write' '', '' pd;
             pd = (case mapValue of None \<Rightarrow> pd | Some v \<Rightarrow> writeType v pd)
         in write' ''>'' pd)
      else write' kind pd)"

definition writeFieldWithPath ::
  "FieldDescriptor \<Rightarrow> int32 list \<Rightarrow> int \<Rightarrow> ProtoDefinition \<Rightarrow> ProtoDefinition" where
  "writeFieldWithPath field msgPath fieldIdx pd =
     (let fieldPath = msgPath @ [2, int32 fieldIdx] in
      run
        [writeLeadingComments fieldPath,
         writeIndented '''',
         (\<lambda>pd.
            if field_HasOptionalKeyword field then write' ''optional '' pd
            else if Cardinality_String (field_Cardinality field) = ''repeated''
            then write' ''repeated '' pd
            else if Cardinality_String (field_Cardinality field) = ''required''
                    \<and> Syntax_String (file_Syntax (descriptor pd)) = ''proto2''
            then write' ''required '' pd
            else pd),
         writeType field,
         write' '' '',
         write' (field_Name field),
         write' '' = '',
         write' (strconv_Itoa (sint (field_Number field))),
         (\<lambda>pd.
            if field_HasDefault field then
              run
                [write' '' [default = '',
                 (let kind = Kind_String (field_Kind field) in
                  if kind = ''string'' then write' (quote @ field_Default field @ quote)
                  else if kind = ''enum'' then write' (field_DefaultEnumValue field)
                  else write' (field_Default field)),
                 write' '']'']
                pd
            else pd),
         write' '';'',
         writeTrailingComment fieldPath,
         write' newline]
        pd)"

text \<open>
  \<^verbatim>\<open>fieldIndexMap[name]\<close>: a Go map gives 0 for a key it does not hold.
\<close>

definition lookup_index :: "(string \<rightharpoonup> int) \<Rightarrow> string \<Rightarrow> int" where
  "lookup_index m k = (case m k of None \<Rightarrow> 0 | Some i \<Rightarrow> i)"

definition writeOneofWithPath ::
  "OneofDescriptor \<Rightarrow> int32 list \<Rightarrow> int \<Rightarrow> (string \<rightharpoonup> int) \<Rightarrow> ProtoDefinition
   \<Rightarrow> ProtoDefinition" where
  "writeOneofWithPath oneof msgPath oneofIdx fieldIndexMap pd =
     (let oneofPath = msgPath @ [8, int32 oneofIdx] in
      if IsSynthetic (file_Syntax (descriptor pd)) oneof then
        (let field = oneof_Fields oneof ! 0;
             fieldIdx = lookup_index fieldIndexMap (field_Name field)
         in writeFieldWithPath field msgPath fieldIdx pd)
      else
        run
          [writeLeadingComments oneofPath,
           writeIndented '''',
           write' ''oneof '',
           write' (oneof_Name oneof),
           write' ('' {'' @ newline),
           indent,
           for_indexed
             (\<lambda>i field.
                writeFieldWithPath field msgPath (lookup_index fieldIndexMap (field_Name field)))
             0 (oneof_Fields oneof),
           dedent,
           writeIndented ''}'',
           writeTrailingComment oneofPath,
           write' newline]
          pd)"

definition writeEnumWithPath ::
  "EnumDescriptor \<Rightarrow> int32 list \<Rightarrow> int \<Rightarrow> bool \<Rightarrow> ProtoDefinition \<Rightarrow> ProtoDefinition" where
  "writeEnumWithPath enum basePath enumIdx isNested pd =
     (let enumPath = (if isNested then basePath @ [4, int32 enumIdx] else [5, int32 enumIdx]) in
      run
        [writeLeadingComments enumPath,
         writeIndented ''enum '',
         write' (enum_Name enum),
         write' ('' {'' @ newline),
         indent,
         for_indexed
           (\<lambda>i v.
              (let valuePath = enumPath @ [2, int32 i] in
               run
                 [writeLeadingComments valuePath,
                  writeIndented (fst v),
                  write' '' = '',
                  write' (strconv_Itoa (sint (snd v))),
                  write' '';'',
                  writeTrailingComment valuePath,
                  write' newline]))
           0 (enum_Values enum),
         dedent,
         writeIndented ''}'',
         writeTrailingComment enumPath,
         write' (newline @ newline)]
        pd)"

text \<open>
  Lines 431 to 448: one reserved range. \<^verbatim>\<open>reservedRange\<close> is the array that \<^verbatim>\<open>Get(i)\<close>
  returned, a copy of the range in the descriptor; the swap and the decrement change
  that copy. The comparison is the signed one of \<^verbatim>\<open>int32\<close>, and the decrement wraps.
\<close>

definition writeReservedRange :: "int32 \<times> int32 \<Rightarrow> ProtoDefinition \<Rightarrow> ProtoDefinition" where
  "writeReservedRange r pd =
     (let pd = writeIndented ''reserved '' pd;
          reservedRange = r;
          reservedRange =
            (if snd reservedRange <s fst reservedRange
             then (snd reservedRange, fst reservedRange) else reservedRange);
          reservedRange = (fst reservedRange, snd reservedRange - 1);
          pd =
            (if fst reservedRange = snd reservedRange
             then write' (strconv_Itoa (sint (fst reservedRange))) pd
             else
               run
                 [write' (strconv_Itoa (sint (fst reservedRange))),
                  write' '' to '',
                  (if sint (snd reservedRange) = MaxValidNumber then write' ''max''
                   else write' (strconv_Itoa (sint (snd reservedRange))))]
                 pd)
      in write' ('';'' @ newline) pd)"

text \<open>
  \<^verbatim>\<open>writeMessageWithPath\<close>, with the loop over the nested messages as
  \<open>writeMessages\<close> (\<open>i\<close> is the index of the head of the list).
\<close>

fun writeMessageWithPath ::
    "MessageDescriptor \<Rightarrow> int32 list \<Rightarrow> int \<Rightarrow> bool \<Rightarrow> ProtoDefinition \<Rightarrow> ProtoDefinition"
  and writeMessages ::
    "MessageDescriptor list \<Rightarrow> int32 list \<Rightarrow> int \<Rightarrow> ProtoDefinition \<Rightarrow> ProtoDefinition" where
  "writeMessageWithPath
       (MessageDescriptor name reservedNames reservedRanges messages enums fieldList oneofList)
       basePath msgIdx isNested pd =
     (let msgPath = (if isNested then basePath @ [3, int32 msgIdx] else [4, int32 msgIdx]);
          pd = run
                 [writeLeadingComments msgPath,
                  writeIndented ''message '',
                  write' name,
                  write' ('' {'' @ newline),
                  indent]
                 pd;
          pd = for_indexed
                 (\<lambda>i reservedName.
                    run
                      [writeIndented (''reserved '' @ quote),
                       write' reservedName,
                       write' (quote @ '';'' @ newline)])
                 0 reservedNames pd;
          pd = for_indexed (\<lambda>i reservedRange. writeReservedRange reservedRange)
                 0 reservedRanges pd;
          pd = writeMessages messages msgPath 0 pd;
          pd = for_indexed (\<lambda>i enum. writeEnumWithPath enum msgPath i True) 0 enums pd;
          fieldIndexMap =
            for_indexed (\<lambda>i field m. m(field_Name field \<mapsto> i)) 0 fieldList Map.empty;
          pd = for_indexed
                 (\<lambda>i field pd.
                    if field_ContainingOneof field = None
                    then writeFieldWithPath field msgPath i pd else pd)
                 0 fieldList pd;
          pd = for_indexed (\<lambda>i oneof. writeOneofWithPath oneof msgPath i fieldIndexMap)
                 0 oneofList pd
      in run
           [dedent,
            writeIndented ''}'',
            writeTrailingComment msgPath,
            write' (newline @ newline)]
           pd)"
| "writeMessages [] msgPath i pd = pd"
| "writeMessages (message # messages) msgPath i pd =
     writeMessages messages msgPath (i + 1) (writeMessageWithPath message msgPath i True pd)"

definition writeMethodWithPath ::
  "MethodDescriptor \<Rightarrow> int32 list \<Rightarrow> int \<Rightarrow> ProtoDefinition \<Rightarrow> ProtoDefinition" where
  "writeMethodWithPath method servicePath methodIdx pd =
     (let methodPath = servicePath @ [2, int32 methodIdx] in
      run
        [writeLeadingComments methodPath,
         writeIndented ''rpc '',
         write' (method_Name method),
         write' '' ('',
         (if method_IsStreamingClient method then write' ''stream '' else (\<lambda>pd. pd)),
         write' ''.'',
         write' (method_Input method),
         write' '') returns ('',
         (if method_IsStreamingServer method then write' ''stream '' else (\<lambda>pd. pd)),
         write' ''.'',
         write' (method_Output method),
         write' '') {}'',
         writeTrailingComment methodPath,
         write' newline]
        pd)"

definition writeServiceWithPath ::
  "ServiceDescriptor \<Rightarrow> int \<Rightarrow> ProtoDefinition \<Rightarrow> ProtoDefinition" where
  "writeServiceWithPath service serviceIdx pd =
     (let servicePath = [6, int32 serviceIdx] in
      run
        [writeLeadingComments servicePath,
         write' ''service '',
         write' (service_Name service),
         write' ('' {'' @ newline),
         indent,
         for_indexed (\<lambda>i method. writeMethodWithPath method servicePath i)
           0 (service_Methods service),
         dedent,
         writeIndented (''}'' @ newline @ newline)]
        pd)"

definition writeImport :: "FileImport \<Rightarrow> ProtoDefinition \<Rightarrow> ProtoDefinition" where
  "writeImport fileImport pd =
     run
       [write' ''import '',
        (if import_IsPublic fileImport then write' ''public '' else (\<lambda>pd. pd)),
        write' quote,
        write' (import_Path fileImport),
        write' (quote @ '';'' @ newline)]
       pd"

text \<open>\<^verbatim>\<open>strings.ReplaceAll(value, "\\", "\\\\")\<close>: every backslash is doubled.\<close>

definition escape_backslashes :: "string \<Rightarrow> string" where
  "escape_backslashes s = concat (map (\<lambda>c. if c = CHR 0x5C then [c, c] else [c]) s)"

definition writeStringFileOptions :: "string \<Rightarrow> string \<Rightarrow> ProtoDefinition \<Rightarrow> ProtoDefinition" where
  "writeStringFileOptions name v pd =
     run
       [write' ''option '',
        write' name,
        write' ('' = '' @ quote),
        write' (escape_backslashes v),
        write' (quote @ '';'' @ newline)]
       pd"

definition writeBoolFileOptions :: "string \<Rightarrow> bool \<Rightarrow> ProtoDefinition \<Rightarrow> ProtoDefinition" where
  "writeBoolFileOptions name v pd =
     run
       [write' ''option '',
        write' name,
        write' '' = '',
        write' (if v then ''true'' else ''false''),
        write' ('';'' @ newline)]
       pd"

text \<open>
  \<^verbatim>\<open>writeFileOptions\<close> walks the table \<^verbatim>\<open>optionDefinitions\<close> and finds each field of the
  options by its name; here each entry of the table holds the option's name and the
  value of the field, \<open>None\<close> when the pointer is \<^verbatim>\<open>nil\<close>.
\<close>

datatype OptionValue = StringOption string | BoolOption bool

definition optionDefinitions :: "FileOptions \<Rightarrow> (string \<times> OptionValue option) list" where
  "optionDefinitions options =
     [(''java_package'', map_option StringOption (JavaPackage options)),
      (''java_outer_classname'', map_option StringOption (JavaOuterClassname options)),
      (''java_multiple_files'', map_option BoolOption (JavaMultipleFiles options)),
      (''java_string_check_utf8'', map_option BoolOption (JavaStringCheckUtf8 options)),
      (''go_package'', map_option StringOption (GoPackage options)),
      (''cc_enable_arenas'', map_option BoolOption (CcEnableArenas options)),
      (''objc_class_prefix'', map_option StringOption (ObjcClassPrefix options)),
      (''csharp_namespace'', map_option StringOption (CsharpNamespace options)),
      (''swift_prefix'', map_option StringOption (SwiftPrefix options)),
      (''php_class_prefix'', map_option StringOption (PhpClassPrefix options)),
      (''php_namespace'', map_option StringOption (PhpNamespace options)),
      (''php_metadata_namespace'', map_option StringOption (PhpMetadataNamespace options)),
      (''ruby_package'', map_option StringOption (RubyPackage options))]"

definition writeFileOptions :: "ProtoDefinition \<Rightarrow> ProtoDefinition" where
  "writeFileOptions pd =
     (case pb_Options pd of
        None \<Rightarrow> pd
      | Some options \<Rightarrow>
          (let (pd, printedOption) =
                 fold
                   (\<lambda>(optionName, elemPtr) (pd, printedOption).
                      (case elemPtr of
                         None \<Rightarrow> (pd, printedOption)
                       | Some (StringOption s) \<Rightarrow> (writeStringFileOptions optionName s pd, True)
                       | Some (BoolOption b) \<Rightarrow> (writeBoolFileOptions optionName b pd, True)))
                   (optionDefinitions options) (pd, False)
           in if printedOption then write' newline pd else pd))"

definition writeFileDescriptor :: "ProtoDefinition \<Rightarrow> ProtoDefinition" where
  "writeFileDescriptor pd =
     (let pd = writeLeadingComments [12] pd;
          pd = run
                 [write' (''syntax = '' @ quote),
                  write' (Syntax_String (file_Syntax (descriptor pd))),
                  write' (quote @ '';'' @ newline @ newline)]
                 pd;
          packageName = file_FullName (descriptor pd);
          pd = (if packageName \<noteq> [] then
                  run [write' ''package '', write' packageName, write' ('';'' @ newline @ newline)] pd
                else pd);
          pd = writeFileOptions pd;
          pd = for_indexed (\<lambda>i fileImport. writeImport fileImport)
                 0 (file_Imports (descriptor pd)) pd;
          pd = (if len (file_Imports (descriptor pd)) > 0 then write' newline pd else pd);
          pd = for_indexed (\<lambda>i service. writeServiceWithPath service i)
                 0 (file_Services (descriptor pd)) pd;
          pd = for_indexed (\<lambda>i message. writeMessageWithPath message [] i False)
                 0 (file_Messages (descriptor pd)) pd;
          pd = for_indexed (\<lambda>i enum. writeEnumWithPath enum [] i False)
                 0 (file_Enums (descriptor pd)) pd
      in pd)"


section \<open>What a call changes\<close>

text \<open>
  \<open>frame pd\<close>: the descriptor, the comment map and the options of a state. \<open>keeps w\<close>:
  the call \<open>w\<close> leaves them as they are.
\<close>

definition frame ::
  "ProtoDefinition \<Rightarrow> FileDescriptor \<times> (string \<rightharpoonup> CommentInfo) \<times> FileOptions option" where
  "frame pd = (descriptor pd, comments pd, pb_Options pd)"

definition keeps :: "(ProtoDefinition \<Rightarrow> ProtoDefinition) \<Rightarrow> bool" where
  "keeps w = (\<forall>pd. frame (w pd) = frame pd)"

named_theorems keeps_intros

lemma keepsD: "keeps w \<Longrightarrow> frame (w pd) = frame pd"
  by (simp add: keeps_def)

lemma keepsI: "(\<And>pd. frame (w pd) = frame pd) \<Longrightarrow> keeps w"
  by (simp add: keeps_def)

lemma keeps_skip [keeps_intros]: "keeps (\<lambda>pd. pd)"
  by (simp add: keeps_def)

lemma keeps_write [keeps_intros]: "keeps (write' s)"
  by (simp add: keeps_def write'_def frame_def)

lemma keeps_writeIndented [keeps_intros]: "keeps (writeIndented s)"
  by (simp add: keeps_def writeIndented_def write'_def frame_def)

lemma keeps_indent [keeps_intros]: "keeps indent"
  by (simp add: keeps_def indent_def frame_def)

lemma keeps_dedent [keeps_intros]: "keeps dedent"
  by (simp add: keeps_def dedent_def frame_def)

lemma keeps_comp: "keeps f \<Longrightarrow> keeps g \<Longrightarrow> keeps (\<lambda>pd. g (f pd))"
  by (simp add: keeps_def)

lemma keeps_if [keeps_intros]: "keeps f \<Longrightarrow> keeps g \<Longrightarrow> keeps (if c then f else g)"
  by simp

lemma keeps_run_Nil [keeps_intros]: "keeps (run [])"
  by (simp add: keeps_def run_def)

lemma keeps_run_Cons [keeps_intros]: "keeps w \<Longrightarrow> keeps (run ws) \<Longrightarrow> keeps (run (w # ws))"
  by (simp add: keeps_def run_def)

lemma keeps_fold [keeps_intros]: "(\<And>x. keeps (f x)) \<Longrightarrow> keeps (fold f xs)"
  by (induction xs) (simp_all add: keeps_def)

lemma keeps_for_indexed [keeps_intros]:
  "(\<And>i x. keeps (body i x)) \<Longrightarrow> keeps (for_indexed body i xs)"
proof (induction xs arbitrary: i)
  case Nil
  show ?case by (simp add: keeps_def)
next
  case (Cons x xs)
  have "keeps (\<lambda>pd. for_indexed body (i + 1) xs (body i x pd))"
    by (rule keeps_comp) (rule Cons.prems, rule Cons.IH, rule Cons.prems)
  then show ?case by (simp add: keeps_def)
qed

lemma keeps_writeComment [keeps_intros]: "keeps (writeComment c)"
proof (rule keepsI)
  fix pd
  have "keeps (fold (\<lambda>line. run [writeIndented ''//'', write' line, write' newline])
             (strings_Split (strings_TrimSuffix c newline) (CHR 0x0A)))"
    by (intro keeps_intros)
  from keepsD [OF this, of pd] show "frame (writeComment c pd) = frame pd"
    by (simp add: writeComment_def Let_def)
qed

lemma keeps_writeLeadingComments [keeps_intros]: "keeps (writeLeadingComments path)"
proof (rule keepsI)
  fix pd
  show "frame (writeLeadingComments path pd) = frame pd"
  proof (cases "getComments path pd")
    case None
    then show ?thesis by (simp add: writeLeadingComments_def)
  next
    case (Some info)
    have 1: "keeps (fold (\<lambda>comment. run [writeComment comment, write' newline])
                (LeadingDetachedComments info))"
      by (intro keeps_intros)
    have 2: "keeps (writeComment (LeadingComments info))" by (intro keeps_intros)
    from Some keepsD [OF 1, of pd] keepsD [OF 2] show ?thesis
      by (simp add: writeLeadingComments_def Let_def)
  qed
qed

lemma keeps_writeTrailingComment [keeps_intros]: "keeps (writeTrailingComment path)"
proof (rule keepsI)
  fix pd
  have k: "\<And>c. keeps (run [write' '' //'', write' c])" by (intro keeps_intros)
  show "frame (writeTrailingComment path pd) = frame pd"
    using keepsD [OF k]
    by (simp add: writeTrailingComment_def Let_def split: option.splits)
qed


lemma Kind_String_not_map: "Kind_String k \<noteq> ''map''"
  by (cases k) simp_all

lemma writeType_unfold:
  "writeType field pd =
     (if Kind_String (field_Kind field) = ''message''
      then run [write' ''.'', write' (field_Message field)] pd
      else if Kind_String (field_Kind field) = ''enum''
      then run [write' ''.'', write' (field_Enum field)] pd
      else write' (Kind_String (field_Kind field)) pd)"
  by (cases field) (simp add: Kind_String_not_map Let_def)

declare writeType.simps [simp del]

lemma keeps_writeType [keeps_intros]: "keeps (writeType field)"
proof (rule keepsI)
  fix pd
  have "keeps (run [write' ''.'', write' (field_Message field)])"
    "keeps (run [write' ''.'', write' (field_Enum field)])"
    "keeps (write' (Kind_String (field_Kind field)))"
    by (intro keeps_intros)+
  from this [THEN keepsD, of pd] show "frame (writeType field pd) = frame pd"
    by (simp add: writeType_unfold)
qed

lemma keeps_cond [keeps_intros]:
  "keeps f \<Longrightarrow> keeps g \<Longrightarrow> keeps (\<lambda>pd. if c pd then f pd else g pd)"
  by (simp add: keeps_def)

lemma keeps_writeFieldWithPath [keeps_intros]: "keeps (writeFieldWithPath field msgPath fieldIdx)"
proof -
  have q: "keeps (\<lambda>pd.
            if field_HasOptionalKeyword field then write' ''optional '' pd
            else if Cardinality_String (field_Cardinality field) = ''repeated''
            then write' ''repeated '' pd
            else if Cardinality_String (field_Cardinality field) = ''required''
                    \<and> Syntax_String (file_Syntax (descriptor pd)) = ''proto2''
            then write' ''required '' pd
            else pd)"
    using keepsD [OF keeps_write] by (simp add: keeps_def)
  have d: "keeps (\<lambda>pd.
            if field_HasDefault field then
              run
                [write' '' [default = '',
                 (if Kind_String (field_Kind field) = ''string''
                  then write' (quote @ field_Default field @ quote)
                  else if Kind_String (field_Kind field) = ''enum''
                  then write' (field_DefaultEnumValue field)
                  else write' (field_Default field)),
                 write' '']'']
                pd
            else pd)"
    using keepsD [OF keeps_write] by (simp add: keeps_def run_def)
  show ?thesis
    unfolding writeFieldWithPath_def Let_def
    apply (rule keepsI)
    apply (rule keepsD)
    apply (intro keeps_run_Cons keeps_run_Nil q d keeps_write keeps_writeIndented keeps_writeType
        keeps_writeLeadingComments keeps_writeTrailingComment)
    done
qed

lemma keeps_writeOneofWithPath [keeps_intros]:
  "keeps (writeOneofWithPath oneof msgPath oneofIdx fieldIndexMap)"
proof (rule keepsI)
  fix pd
  have 1: "keeps (writeFieldWithPath (oneof_Fields oneof ! 0) msgPath
             (lookup_index fieldIndexMap (field_Name (oneof_Fields oneof ! 0))))"
    by (intro keeps_intros)
  have 2: "keeps (run
          [writeLeadingComments (msgPath @ [8, int32 oneofIdx]),
           writeIndented '''',
           write' ''oneof '',
           write' (oneof_Name oneof),
           write' ('' {'' @ newline),
           indent,
           for_indexed
             (\<lambda>i field.
                writeFieldWithPath field msgPath (lookup_index fieldIndexMap (field_Name field)))
             0 (oneof_Fields oneof),
           dedent,
           writeIndented ''}'',
           writeTrailingComment (msgPath @ [8, int32 oneofIdx]),
           write' newline])"
    by (intro keeps_intros)
  from keepsD [OF 1, of pd] keepsD [OF 2, of pd]
  show "frame (writeOneofWithPath oneof msgPath oneofIdx fieldIndexMap pd) = frame pd"
    by (simp add: writeOneofWithPath_def Let_def)
qed

lemma keeps_writeEnumWithPath [keeps_intros]:
  "keeps (writeEnumWithPath enum basePath enumIdx isNested)"
proof -
  have "keeps (\<lambda>pd. writeEnumWithPath enum basePath enumIdx isNested pd)"
    unfolding writeEnumWithPath_def Let_def
    by (intro keeps_intros)
  then show ?thesis .
qed

lemma keeps_writeReservedRange [keeps_intros]: "keeps (writeReservedRange r)"
proof (rule keepsI)
  fix pd
  have 1: "\<And>s. keeps (write' s)" "\<And>s. keeps (writeIndented s)"
    "\<And>a b c. keeps (run [write' a, write' b, write' c])"
    by (intro keeps_intros)+
  show "frame (writeReservedRange r pd) = frame pd"
    using 1 [THEN keepsD]
    by (simp add: writeReservedRange_def Let_def)
qed

lemma frame_writeMessageWithPath:
  "frame (writeMessageWithPath message basePath msgIdx isNested pd) = frame pd"
  "frame (writeMessages messages msgPath i pd) = frame pd"
proof (induction message basePath msgIdx isNested pd and messages msgPath i pd
       rule: writeMessageWithPath_writeMessages.induct)
  case (1 name reservedNames reservedRanges messages enums fieldList oneofList
        basePath msgIdx isNested pd)
  let ?msgPath = "if isNested then basePath @ [3, int32 msgIdx] else [4, int32 msgIdx]"
  let ?fieldIndexMap =
    "for_indexed (\<lambda>i field m. m(field_Name field \<mapsto> i)) 0 fieldList
       (Map.empty :: string \<rightharpoonup> int)"
  have a: "keeps (run
                 [writeLeadingComments ?msgPath,
                  writeIndented ''message '',
                  write' name,
                  write' ('' {'' @ newline),
                  indent])"
    by (intro keeps_intros)
  have b: "keeps (for_indexed
                 (\<lambda>i reservedName.
                    run
                      [writeIndented (''reserved '' @ quote),
                       write' reservedName,
                       write' (quote @ '';'' @ newline)])
                 0 reservedNames)"
    by (intro keeps_intros)
  have c: "keeps (for_indexed (\<lambda>i reservedRange. writeReservedRange reservedRange)
                 0 reservedRanges)"
    by (intro keeps_intros)
  have d: "keeps (for_indexed (\<lambda>i enum. writeEnumWithPath enum ?msgPath i True) 0 enums)"
    by (intro keeps_intros)
  have e: "keeps (for_indexed
                 (\<lambda>i field pd.
                    if field_ContainingOneof field = None
                    then writeFieldWithPath field ?msgPath i pd else pd)
                 0 fieldList)"
    by (intro keeps_intros)
  have f: "keeps (for_indexed (\<lambda>i oneof. writeOneofWithPath oneof ?msgPath i ?fieldIndexMap)
                 0 oneofList)"
    by (intro keeps_intros)
  have g: "keeps (run
           [dedent,
            writeIndented ''}'',
            writeTrailingComment ?msgPath,
            write' (newline @ newline)])"
    by (intro keeps_intros)
  note IH = "1.IH" [OF refl refl refl refl]
  show ?case
    by (simp only: writeMessageWithPath.simps Let_def
        keepsD [OF a] keepsD [OF b] keepsD [OF c] keepsD [OF d] keepsD [OF e] keepsD [OF f]
        keepsD [OF g] IH)
next
  case (2 msgPath i pd)
  show ?case by simp
next
  case (3 message messages msgPath i pd)
  then show ?case by simp
qed

lemma keeps_writeMessageWithPath [keeps_intros]:
  "keeps (writeMessageWithPath message basePath msgIdx isNested)"
  by (rule keepsI) (rule frame_writeMessageWithPath)

lemma keeps_writeMethodWithPath [keeps_intros]:
  "keeps (writeMethodWithPath method servicePath methodIdx)"
proof -
  have "keeps (\<lambda>pd. writeMethodWithPath method servicePath methodIdx pd)"
    unfolding writeMethodWithPath_def Let_def
    by (intro keeps_intros)
  then show ?thesis .
qed

lemma keeps_writeServiceWithPath [keeps_intros]:
  "keeps (writeServiceWithPath service serviceIdx)"
proof -
  have "keeps (\<lambda>pd. writeServiceWithPath service serviceIdx pd)"
    unfolding writeServiceWithPath_def Let_def
    by (intro keeps_intros)
  then show ?thesis .
qed

lemma keeps_writeImport [keeps_intros]: "keeps (writeImport fileImport)"
proof -
  have "keeps (\<lambda>pd. writeImport fileImport pd)"
    unfolding writeImport_def
    by (intro keeps_intros)
  then show ?thesis .
qed

lemma keeps_writeStringFileOptions [keeps_intros]: "keeps (writeStringFileOptions name v)"
proof -
  have "keeps (\<lambda>pd. writeStringFileOptions name v pd)"
    unfolding writeStringFileOptions_def
    by (intro keeps_intros)
  then show ?thesis .
qed

lemma keeps_writeBoolFileOptions [keeps_intros]: "keeps (writeBoolFileOptions name v)"
proof -
  have "keeps (\<lambda>pd. writeBoolFileOptions name v pd)"
    unfolding writeBoolFileOptions_def
    by (intro keeps_intros)
  then show ?thesis .
qed

lemma frame_option_loop:
  "frame (fst (fold
       (\<lambda>(optionName, elemPtr) (pd, printedOption).
          (case elemPtr of
             None \<Rightarrow> (pd, printedOption)
           | Some (StringOption s) \<Rightarrow> (writeStringFileOptions optionName s pd, True)
           | Some (BoolOption b) \<Rightarrow> (writeBoolFileOptions optionName b pd, True)))
       table (pd, printed))) = frame pd"
proof (induction table arbitrary: pd printed)
  case Nil
  show ?case by simp
next
  case (Cons entry table)
  obtain optionName elemPtr where e: "entry = (optionName, elemPtr)" by (cases entry)
  show ?case
  proof (cases elemPtr)
    case None
    with e Cons.IH show ?thesis by simp
  next
    case (Some v)
    with e Cons.IH keepsD [OF keeps_writeStringFileOptions] keepsD [OF keeps_writeBoolFileOptions]
    show ?thesis by (cases v) simp_all
  qed
qed

lemma keeps_writeFileOptions [keeps_intros]: "keeps writeFileOptions"
proof (rule keepsI)
  fix pd
  show "frame (writeFileOptions pd) = frame pd"
  proof (cases "pb_Options pd")
    case None
    then show ?thesis by (simp add: writeFileOptions_def)
  next
    case (Some options)
    with frame_option_loop [of "optionDefinitions options" pd False] keepsD [OF keeps_write]
    show ?thesis
      by (simp add: writeFileOptions_def case_prod_unfold Let_def)
  qed
qed

lemma frame_descriptor: "frame a = frame b \<Longrightarrow> descriptor a = descriptor b"
  by (simp add: frame_def)

lemma keeps_writeFileDescriptor: "keeps writeFileDescriptor"
proof (rule keepsI)
  fix pd :: ProtoDefinition
  define d where "d = descriptor pd"
  have a: "keeps (writeLeadingComments [12])" by (intro keeps_intros)
  have b: "keeps (run
                 [write' (''syntax = '' @ quote),
                  write' (Syntax_String (file_Syntax d)),
                  write' (quote @ '';'' @ newline @ newline)])"
    by (intro keeps_intros)
  have c: "keeps (run [write' ''package '', write' (file_FullName d),
                  write' ('';'' @ newline @ newline)])"
    by (intro keeps_intros)
  have e: "keeps (for_indexed (\<lambda>i fileImport. writeImport fileImport) 0 (file_Imports d))"
    by (intro keeps_intros)
  have f: "keeps (for_indexed (\<lambda>i service. writeServiceWithPath service i) 0 (file_Services d))"
    by (intro keeps_intros)
  have g: "keeps (for_indexed (\<lambda>i message. writeMessageWithPath message [] i False)
                 0 (file_Messages d))"
    by (intro keeps_intros)
  have h: "keeps (for_indexed (\<lambda>i enum. writeEnumWithPath enum [] i False) 0 (file_Enums d))"
    by (intro keeps_intros)
  note K = keepsD [OF a] keepsD [OF b] keepsD [OF c] keepsD [OF e] keepsD [OF f] keepsD [OF g]
    keepsD [OF h] keepsD [OF keeps_writeFileOptions] keepsD [OF keeps_write]
  have D: "\<And>x. frame x = frame pd \<Longrightarrow> descriptor x = d"
    by (simp add: frame_def d_def)
  have 1: "frame (writeLeadingComments [12] pd) = frame pd" by (rule K)
  define p1 where "p1 = writeLeadingComments [12] pd"
  define p2 where "p2 = run
                 [write' (''syntax = '' @ quote),
                  write' (Syntax_String (file_Syntax (descriptor p1))),
                  write' (quote @ '';'' @ newline @ newline)] p1"
  define p3 where "p3 = (if file_FullName (descriptor p2) \<noteq> [] then
                  run [write' ''package '', write' (file_FullName (descriptor p2)),
                       write' ('';'' @ newline @ newline)] p2
                else p2)"
  define p4 where "p4 = writeFileOptions p3"
  define p5 where "p5 = for_indexed (\<lambda>i fileImport. writeImport fileImport)
                 0 (file_Imports (descriptor p4)) p4"
  define p6 where "p6 = (if len (file_Imports (descriptor p5)) > 0 then write' newline p5 else p5)"
  define p7 where "p7 = for_indexed (\<lambda>i service. writeServiceWithPath service i)
                 0 (file_Services (descriptor p6)) p6"
  define p8 where "p8 = for_indexed (\<lambda>i message. writeMessageWithPath message [] i False)
                 0 (file_Messages (descriptor p7)) p7"
  define p9 where "p9 = for_indexed (\<lambda>i enum. writeEnumWithPath enum [] i False)
                 0 (file_Enums (descriptor p8)) p8"
  have f1: "frame p1 = frame pd" unfolding p1_def by (rule K)
  have f2: "frame p2 = frame pd" unfolding p2_def D [OF f1] using K(2) [of p1] f1 by simp
  have f3: "frame p3 = frame pd" unfolding p3_def D [OF f2] using K(3) [of p2] f2 by simp
  have f4: "frame p4 = frame pd" unfolding p4_def using K(8) [of p3] f3 by simp
  have f5: "frame p5 = frame pd" unfolding p5_def D [OF f4] using K(4) [of p4] f4 by simp
  have f6: "frame p6 = frame pd" unfolding p6_def using K(9) [of newline p5] f5 by simp
  have f7: "frame p7 = frame pd" unfolding p7_def D [OF f6] using K(5) [of p6] f6 by simp
  have f8: "frame p8 = frame pd" unfolding p8_def D [OF f7] using K(6) [of p7] f7 by simp
  have f9: "frame p9 = frame pd" unfolding p9_def D [OF f8] using K(7) [of p8] f8 by simp
  have "writeFileDescriptor pd = p9"
    unfolding writeFileDescriptor_def Let_def p9_def p8_def p7_def p6_def p5_def p4_def p3_def
      p2_def p1_def ..
  with f9 show "frame (writeFileDescriptor pd) = frame pd" by simp
qed

text \<open>
  \<open>appends w\<close>: the call \<open>w\<close> changes nothing but the text, and it only adds to the text.
\<close>

definition appends :: "(ProtoDefinition \<Rightarrow> ProtoDefinition) \<Rightarrow> bool" where
  "appends w = (\<forall>pd. \<exists>t. w pd = pd\<lparr>builder := builder pd @ t\<rparr>)"

named_theorems appends_intros

lemma appendsE:
  assumes "appends w"
  obtains t where "w pd = pd\<lparr>builder := builder pd @ t\<rparr>"
  using assms unfolding appends_def by blast

lemma appendsI: "(\<And>pd. \<exists>t. w pd = pd\<lparr>builder := builder pd @ t\<rparr>) \<Longrightarrow> appends w"
  by (simp add: appends_def)

lemma appends_indendation: "appends w \<Longrightarrow> indendation (w pd) = indendation pd"
  by (erule appendsE [of w pd]) simp

lemma appends_comments: "appends w \<Longrightarrow> comments (w pd) = comments pd"
  by (erule appendsE [of w pd]) simp

lemma appends_descriptor: "appends w \<Longrightarrow> descriptor (w pd) = descriptor pd"
  by (erule appendsE [of w pd]) simp

lemma appends_skip [appends_intros]: "appends (\<lambda>pd. pd)"
proof (rule appendsI)
  fix pd :: ProtoDefinition
  have "pd = pd\<lparr>builder := builder pd @ []\<rparr>" by simp
  then show "\<exists>t. pd = pd\<lparr>builder := builder pd @ t\<rparr>" ..
qed

lemma appends_write [appends_intros]: "appends (write' s)"
  by (rule appendsI) (auto simp: write'_def)

lemma appends_writeIndented [appends_intros]: "appends (writeIndented s)"
proof (rule appendsI)
  fix pd
  have "writeIndented s pd
        = pd\<lparr>builder := builder pd @ (strings_Repeat ''  '' (indendation pd) @ s)\<rparr>"
    by (simp add: writeIndented_def write'_def)
  then show "\<exists>t. writeIndented s pd = pd\<lparr>builder := builder pd @ t\<rparr>" ..
qed

lemma appends_comp: "appends f \<Longrightarrow> appends g \<Longrightarrow> appends (\<lambda>pd. g (f pd))"
proof (rule appendsI)
  fix pd
  assume f: "appends f" and g: "appends g"
  from f obtain t where t: "f pd = pd\<lparr>builder := builder pd @ t\<rparr>" by (rule appendsE)
  from g obtain u where u: "g (f pd) = (f pd)\<lparr>builder := builder (f pd) @ u\<rparr>"
    by (rule appendsE)
  have "g (f pd) = pd\<lparr>builder := builder pd @ (t @ u)\<rparr>" unfolding u unfolding t by simp
  then show "\<exists>v. g (f pd) = pd\<lparr>builder := builder pd @ v\<rparr>" ..
qed

lemma appends_if [appends_intros]: "appends f \<Longrightarrow> appends g \<Longrightarrow> appends (if c then f else g)"
  by simp

lemma appends_cond [appends_intros]:
  "appends f \<Longrightarrow> appends g \<Longrightarrow> appends (\<lambda>pd. if c pd then f pd else g pd)"
  by (simp add: appends_def)

lemma run_Nil: "run [] = (\<lambda>pd. pd)"
  by (rule ext) (simp add: run_def)

lemma run_Cons: "run (w # ws) = (\<lambda>pd. run ws (w pd))"
  by (rule ext) (simp add: run_def)

lemma appends_run_Nil [appends_intros]: "appends (run [])"
  unfolding run_Nil by (rule appends_skip)

lemma appends_run_Cons [appends_intros]:
  "appends w \<Longrightarrow> appends (run ws) \<Longrightarrow> appends (run (w # ws))"
  unfolding run_Cons by (rule appends_comp)

lemma appends_fold [appends_intros]: "(\<And>x. appends (f x)) \<Longrightarrow> appends (fold f xs)"
proof (induction xs)
  case Nil
  show ?case using appends_skip by simp
next
  case (Cons x xs)
  from appends_comp [OF Cons.prems [of x] Cons.IH [OF Cons.prems]]
  show ?case by (simp add: comp_def)
qed

lemma appends_for_indexed [appends_intros]:
  "(\<And>i x. appends (body i x)) \<Longrightarrow> appends (for_indexed body i xs)"
proof (induction xs arbitrary: i)
  case Nil
  show ?case using appends_skip by simp
next
  case (Cons x xs)
  have "appends (\<lambda>pd. for_indexed body (i + 1) xs (body i x pd))"
    by (rule appends_comp) (rule Cons.prems, rule Cons.IH, rule Cons.prems)
  then show ?case by simp
qed

lemma appends_writeComment [appends_intros]: "appends (writeComment c)"
proof (cases "c = []")
  case True
  then have "writeComment c = (\<lambda>pd. pd)" by (intro ext) (simp add: writeComment_def)
  then show ?thesis by (simp add: appends_skip)
next
  case False
  have "appends (fold (\<lambda>line. run [writeIndented ''//'', write' line, write' newline])
             (strings_Split (strings_TrimSuffix c newline) (CHR 0x0A)))"
    by (intro appends_intros)
  moreover from False have "writeComment c
      = fold (\<lambda>line. run [writeIndented ''//'', write' line, write' newline])
             (strings_Split (strings_TrimSuffix c newline) (CHR 0x0A))"
    by (intro ext) (simp add: writeComment_def Let_def)
  ultimately show ?thesis by simp
qed

lemma appends_writeLeadingComments [appends_intros]: "appends (writeLeadingComments path)"
proof (rule appendsI)
  fix pd
  show "\<exists>t. writeLeadingComments path pd = pd\<lparr>builder := builder pd @ t\<rparr>"
  proof (cases "getComments path pd")
    case None
    then have "writeLeadingComments path pd = pd\<lparr>builder := builder pd @ []\<rparr>"
      by (simp add: writeLeadingComments_def)
    then show ?thesis ..
  next
    case (Some info)
    have "appends (\<lambda>pd. (if LeadingComments info \<noteq> [] then writeComment (LeadingComments info)
                           else (\<lambda>pd. pd))
             (fold (\<lambda>comment. run [writeComment comment, write' newline])
                (LeadingDetachedComments info) pd))"
      by (rule appends_comp) (intro appends_intros)+
    then obtain t where
      "(if LeadingComments info \<noteq> [] then writeComment (LeadingComments info) else (\<lambda>pd. pd))
             (fold (\<lambda>comment. run [writeComment comment, write' newline])
                (LeadingDetachedComments info) pd) = pd\<lparr>builder := builder pd @ t\<rparr>"
      by (rule appendsE)
    with Some have "writeLeadingComments path pd = pd\<lparr>builder := builder pd @ t\<rparr>"
      by (simp add: writeLeadingComments_def Let_def split: if_splits)
    then show ?thesis ..
  qed
qed

lemma Index_from_single:
  "0 \<le> i \<Longrightarrow> (Index_from i s [c] \<ge> 0) = (c \<in> set s)"
proof (induction s arbitrary: i)
  case Nil
  then show ?case by simp
next
  case (Cons x xs)
  from Cons.IH [of "i + 1"] Cons.prems show ?case by auto
qed

lemma strings_Contains_newline: "strings_Contains s newline = (CHR 0x0A \<in> set s)"
  unfolding strings_Contains_def newline_def by (rule Index_from_single) simp

lemma trim_right_settled: "trailing_space (trim_right s) = None"
proof (induction s rule: trim_right.induct)
  case (1 s)
  show ?case
  proof (cases "trailing_space s")
    case None
    then show ?thesis by (subst trim_right.simps) simp
  next
    case (Some p)
    with "1.IH" [OF Some] show ?thesis by (subst trim_right.simps) simp
  qed
qed

lemma TrimSpace_no_newline_suffix: "\<not> strings_HasSuffix (strings_TrimSpace s) newline"
proof -
  have "trailing_space (strings_TrimSpace s) = None"
    unfolding strings_TrimSpace_def by (rule trim_right_settled)
  then have "\<forall>p\<in>set space_encodings. \<not> strings_HasSuffix (strings_TrimSpace s) p"
    by (simp add: trailing_space_def find_None_iff)
  moreover have "newline \<in> set space_encodings"
    by (simp add: space_encodings_def newline_def)
  ultimately show ?thesis by blast
qed

lemma TrimSuffix_TrimSpace:
  "strings_TrimSuffix (strings_TrimSpace s) newline = strings_TrimSpace s"
  by (simp add: strings_TrimSuffix_def TrimSpace_no_newline_suffix)

text \<open>The text that \<^verbatim>\<open>writeTrailingComment\<close> adds for the comments found at a path.\<close>

definition trailing_text :: "CommentInfo option \<Rightarrow> string" where
  "trailing_text found =
     (case found of
        None \<Rightarrow> []
      | Some info \<Rightarrow>
          (let comment = strings_TrimSpace (TrailingComments info) in
           if comment \<noteq> [] \<and> CHR 0x0A \<notin> set comment then '' //'' @ comment else []))"

lemma TrimSpace_Nil: "strings_TrimSpace [] = []"
proof -
  have l: "leading_space [] = None"
    by (simp add: leading_space_def find_None_iff space_encodings_def)
  have t: "trailing_space [] = None"
    by (simp add: trailing_space_def find_None_iff space_encodings_def strings_HasSuffix_def)
  show ?thesis
    unfolding strings_TrimSpace_def
    by (subst trim_left.simps, simp add: l, subst trim_right.simps, simp add: t)
qed

lemma writeTrailingComment_eq:
  "writeTrailingComment path pd
   = pd\<lparr>builder := builder pd @ trailing_text (getComments path pd)\<rparr>"
  by (cases "getComments path pd")
     (auto simp: writeTrailingComment_def trailing_text_def Let_def TrimSuffix_TrimSpace
        strings_Contains_newline run_def write'_def TrimSpace_Nil)

lemma appends_writeTrailingComment [appends_intros]: "appends (writeTrailingComment path)"
  by (rule appendsI) (auto simp: writeTrailingComment_eq)

text \<open>The texts that \<^verbatim>\<open>writeFieldWithPath\<close> adds for the parts of a field.\<close>

definition qualifier_text :: "Syntax \<Rightarrow> FieldDescriptor \<Rightarrow> string" where
  "qualifier_text syntax field =
     (if field_HasOptionalKeyword field then ''optional ''
      else if field_Cardinality field = Repeated then ''repeated ''
      else if field_Cardinality field = Required \<and> syntax = Proto2 then ''required ''
      else [])"

definition type_text :: "FieldDescriptor \<Rightarrow> string" where
  "type_text field =
     (if field_Kind field = MessageKind then ''.'' @ field_Message field
      else if field_Kind field = EnumKind then ''.'' @ field_Enum field
      else Kind_String (field_Kind field))"

definition default_text :: "FieldDescriptor \<Rightarrow> string" where
  "default_text field =
     (if field_HasDefault field then
        '' [default = ''
        @ (if field_Kind field = StringKind then quote @ field_Default field @ quote
           else if field_Kind field = EnumKind then field_DefaultEnumValue field
           else field_Default field)
        @ '']''
      else [])"

lemma Kind_String_eq:
  "(Kind_String k = ''message'') = (k = MessageKind)"
  "(Kind_String k = ''enum'') = (k = EnumKind)"
  "(Kind_String k = ''string'') = (k = StringKind)"
  by (cases k; simp)+

lemma Cardinality_String_eq:
  "(Cardinality_String c = ''repeated'') = (c = Repeated)"
  "(Cardinality_String c = ''required'') = (c = Required)"
  by (cases c; simp)+

lemma Syntax_String_eq: "(Syntax_String s = ''proto2'') = (s = Proto2)"
  by (cases s) simp_all

lemma writeType_eq: "writeType field pd = pd\<lparr>builder := builder pd @ type_text field\<rparr>"
  by (simp add: writeType_unfold type_text_def Kind_String_eq run_def write'_def)

lemma appends_writeType [appends_intros]: "appends (writeType field)"
  by (rule appendsI) (auto simp: writeType_eq)

lemma writeFieldWithPath_eq:
  "writeFieldWithPath field msgPath fieldIdx pd
   = (writeLeadingComments (msgPath @ [2, int32 fieldIdx]) pd)
       \<lparr>builder :=
          builder (writeLeadingComments (msgPath @ [2, int32 fieldIdx]) pd)
          @ strings_Repeat ''  '' (indendation pd)
          @ qualifier_text (file_Syntax (descriptor pd)) field
          @ type_text field @ '' '' @ field_Name field @ '' = ''
          @ strconv_Itoa (sint (field_Number field))
          @ default_text field @ '';''
          @ trailing_text (getComments (msgPath @ [2, int32 fieldIdx]) pd)
          @ newline\<rparr>"
proof -
  let ?p = "writeLeadingComments (msgPath @ [2, int32 fieldIdx]) pd"
  have a: "appends (writeLeadingComments (msgPath @ [2, int32 fieldIdx]))"
    by (intro appends_intros)
  note A = appends_indendation [OF a, of pd] appends_comments [OF a, of pd]
    appends_descriptor [OF a, of pd]
  show ?thesis
    unfolding writeFieldWithPath_def Let_def run_def
    by (simp add: writeIndented_def write'_def writeType_eq writeTrailingComment_eq A
        getComments_def qualifier_text_def default_text_def Kind_String_eq
        Cardinality_String_eq Syntax_String_eq)
qed

lemma appends_writeFieldWithPath [appends_intros]:
  "appends (writeFieldWithPath field msgPath fieldIdx)"
proof (rule appendsI)
  fix pd
  have a: "appends (writeLeadingComments (msgPath @ [2, int32 fieldIdx]))"
    by (intro appends_intros)
  then obtain t where
    t: "writeLeadingComments (msgPath @ [2, int32 fieldIdx]) pd = pd\<lparr>builder := builder pd @ t\<rparr>"
    by (rule appendsE)
  define X where "X = strings_Repeat ''  '' (indendation pd)
          @ qualifier_text (file_Syntax (descriptor pd)) field
          @ type_text field @ '' '' @ field_Name field @ '' = ''
          @ strconv_Itoa (sint (field_Number field))
          @ default_text field @ '';''
          @ trailing_text (getComments (msgPath @ [2, int32 fieldIdx]) pd)
          @ newline"
  have "writeFieldWithPath field msgPath fieldIdx pd = pd\<lparr>builder := builder pd @ (t @ X)\<rparr>"
    unfolding writeFieldWithPath_eq t X_def by simp
  then show "\<exists>t. writeFieldWithPath field msgPath fieldIdx pd = pd\<lparr>builder := builder pd @ t\<rparr>" ..
qed

text \<open>
  The state in which \<^verbatim>\<open>NewFromDescriptor\<close> calls \<^verbatim>\<open>writeFileDescriptor\<close>: nothing
  written, no indentation.
\<close>

definition new_ProtoDefinition ::
  "FileOptions option \<Rightarrow> FileDescriptor \<Rightarrow> (string \<rightharpoonup> CommentInfo) \<Rightarrow> ProtoDefinition" where
  "new_ProtoDefinition options d cs =
     \<lparr>builder = [], indendation = 0, pb_Options = options, descriptor = d, comments = cs\<rparr>"





text \<open>A file descriptor with nothing in it, for the examples.\<close>

definition empty_file :: FileDescriptor where
  "empty_file =
     \<lparr>file_Syntax = Proto3, file_FullName = [], file_Imports = [], file_Services = [],
      file_Messages = [], file_Enums = []\<rparr>"

text \<open>
  A field with a trailing comment, a proto3 \<^verbatim>\<open>optional\<close> field with the synthetic oneof
  that wraps it, an explicit oneof of two fields, and a file whose message holds the
  reserved ranges \<open>(10, 5)\<close> and \<open>(5, 6)\<close>, for the examples.
\<close>

definition commented_field :: FieldDescriptor where
  "commented_field =
     FieldDescriptor ''x'' 1 Int32Kind Optional False False [] [] [] [] None None None"

definition optional_field :: FieldDescriptor where
  "optional_field =
     FieldDescriptor ''nick'' 3 StringKind Optional True False [] [] [] [] None None (Some ''_nick'')"

definition choice_field :: "string \<Rightarrow> int32 \<Rightarrow> FieldDescriptor" where
  "choice_field name number =
     FieldDescriptor name number StringKind Optional False False [] [] [] [] None None (Some ''contact'')"

definition synthetic_oneof :: OneofDescriptor where
  "synthetic_oneof = \<lparr>oneof_Name = ''_nick'', oneof_Fields = [optional_field]\<rparr>"

definition explicit_oneof :: OneofDescriptor where
  "explicit_oneof =
     \<lparr>oneof_Name = ''contact'',
      oneof_Fields = [choice_field ''mail'' 1, choice_field ''phone'' 2]\<rparr>"

definition reversed_range_file :: FileDescriptor where
  "reversed_range_file =
     \<lparr>file_Syntax = Proto3, file_FullName = [], file_Imports = [], file_Services = [],
      file_Messages = [MessageDescriptor ''M'' [] [(10, 5), (5, 6)] [] [] [] []],
      file_Enums = []\<rparr>"





section \<open>Oneofs\<close>

text \<open>
  An explicit oneof is written as a block: the header line, the text of its fields, the
  closing brace with the trailing comment of the oneof.
\<close>

lemma writeOneofWithPath_block:
  assumes "\<not> IsSynthetic (file_Syntax (descriptor pd)) oneof"
  shows "\<exists>body. builder (writeOneofWithPath oneof msgPath oneofIdx fieldIndexMap pd)
     = builder (writeLeadingComments (msgPath @ [8, int32 oneofIdx]) pd)
         @ strings_Repeat ''  '' (indendation pd)
         @ ''oneof '' @ oneof_Name oneof @ '' {'' @ newline
         @ body
         @ strings_Repeat ''  '' (indendation pd) @ ''}''
         @ trailing_text (getComments (msgPath @ [8, int32 oneofIdx]) pd) @ newline"
proof -
  let ?path = "msgPath @ [8, int32 oneofIdx]"
  let ?loop = "for_indexed
             (\<lambda>i field.
                writeFieldWithPath field msgPath (lookup_index fieldIndexMap (field_Name field)))
             0 (oneof_Fields oneof)"
  have u: "\<And>(r :: ProtoDefinition) t. builder (r\<lparr>builder := t\<rparr>) = t" by simp
  have a: "appends (writeLeadingComments ?path)" by (intro appends_intros)
  have b: "appends ?loop" by (intro appends_intros)
  obtain lead where lead: "writeLeadingComments ?path pd = pd\<lparr>builder := builder pd @ lead\<rparr>"
    using a by (rule appendsE)
  define s1 where "s1 = indent (write' ('' {'' @ newline) (write' (oneof_Name oneof)
        (write' ''oneof '' (writeIndented '''' (writeLeadingComments ?path pd)))))"
  obtain body where body: "?loop s1 = s1\<lparr>builder := builder s1 @ body\<rparr>"
    using b by (rule appendsE)
  have g: "getComments ?path (dedent (s1\<lparr>builder := builder s1 @ body\<rparr>)) = getComments ?path pd"
    by (simp add: getComments_def dedent_def s1_def indent_def write'_def writeIndented_def lead)
  have "writeOneofWithPath oneof msgPath oneofIdx fieldIndexMap pd
     = write' newline (writeTrailingComment ?path (writeIndented ''}'' (dedent (?loop s1))))"
    using assms by (simp add: writeOneofWithPath_def Let_def run_def s1_def)
  also have "\<dots> = pd\<lparr>builder := builder (writeLeadingComments ?path pd)
         @ strings_Repeat ''  '' (indendation pd)
         @ ''oneof '' @ oneof_Name oneof @ '' {'' @ newline
         @ body
         @ strings_Repeat ''  '' (indendation pd) @ ''}''
         @ trailing_text (getComments ?path pd) @ newline\<rparr>"
    unfolding body writeTrailingComment_eq
    by (simp add: getComments_def dedent_def s1_def indent_def write'_def writeIndented_def lead)
  finally have w: "writeOneofWithPath oneof msgPath oneofIdx fieldIndexMap pd
     = pd\<lparr>builder := builder (writeLeadingComments ?path pd)
         @ strings_Repeat ''  '' (indendation pd)
         @ ''oneof '' @ oneof_Name oneof @ '' {'' @ newline
         @ body
         @ strings_Repeat ''  '' (indendation pd) @ ''}''
         @ trailing_text (getComments ?path pd) @ newline\<rparr>" .
  have "builder (writeOneofWithPath oneof msgPath oneofIdx fieldIndexMap pd)
     = builder (writeLeadingComments ?path pd)
         @ strings_Repeat ''  '' (indendation pd)
         @ ''oneof '' @ oneof_Name oneof @ '' {'' @ newline
         @ body
         @ strings_Repeat ''  '' (indendation pd) @ ''}''
         @ trailing_text (getComments ?path pd) @ newline"
    unfolding w by (rule u)
  then show ?thesis by blast
qed

lemma IsSynthetic_qualifier:
  "IsSynthetic syntax oneof \<Longrightarrow> qualifier_text syntax' (oneof_Fields oneof ! 0) = ''optional ''"
  by (simp add: IsSynthetic_def qualifier_text_def)

lemma oneof_examples:
  "builder (writeOneofWithPath synthetic_oneof [4, 0] 1
              (Map.empty(''mail'' \<mapsto> 0, ''phone'' \<mapsto> 1, ''nick'' \<mapsto> 2))
              (indent (new_ProtoDefinition None empty_file Map.empty)))
   = ''  optional string nick = 3;'' @ newline"
  "builder (writeOneofWithPath explicit_oneof [4, 0] 0
              (Map.empty(''mail'' \<mapsto> 0, ''phone'' \<mapsto> 1, ''nick'' \<mapsto> 2))
              (indent (new_ProtoDefinition None empty_file Map.empty)))
   = ''  oneof contact {'' @ newline
     @ ''    string mail = 1;'' @ newline
     @ ''    string phone = 2;'' @ newline
     @ ''  }'' @ newline"
  by code_simp+

lemma reversed_range_example:
  "builder (writeFileDescriptor (new_ProtoDefinition None reversed_range_file Map.empty))
   = ''syntax = '' @ quote @ ''proto3'' @ quote @ '';'' @ newline @ newline
     @ ''message M {'' @ newline
     @ ''  reserved 5 to 9;'' @ newline
     @ ''  reserved 5;'' @ newline
     @ ''}'' @ newline @ newline"
  by code_simp


section \<open>Trailing comments\<close>

text \<open>
  What \<^verbatim>\<open>writeTrailingComment\<close> writes for a path with an entry in the comment map, and the
  line of a field with it. A trailing comment that is white space only is not written.
\<close>

lemma writeTrailingComment_cases:
  "(getComments path pd = Some info \<longrightarrow>
      (strings_TrimSpace (TrailingComments info) \<noteq> []
         \<and> CHR 0x0A \<notin> set (strings_TrimSpace (TrailingComments info)) \<longrightarrow>
       writeTrailingComment path pd
       = pd\<lparr>builder := builder pd @ '' //'' @ strings_TrimSpace (TrailingComments info)\<rparr>)
      \<and> (strings_TrimSpace (TrailingComments info) = []
           \<or> CHR 0x0A \<in> set (strings_TrimSpace (TrailingComments info)) \<longrightarrow>
         writeTrailingComment path pd = pd))
   \<and> builder (writeFieldWithPath field msgPath fieldIdx pd)
     = builder (writeLeadingComments (msgPath @ [2, int32 fieldIdx]) pd)
       @ strings_Repeat ''  '' (indendation pd)
       @ qualifier_text (file_Syntax (descriptor pd)) field
       @ type_text field @ '' '' @ field_Name field @ '' = ''
       @ strconv_Itoa (sint (field_Number field))
       @ default_text field @ '';''
       @ trailing_text (getComments (msgPath @ [2, int32 fieldIdx]) pd)
       @ newline"
  by (auto simp: writeTrailingComment_eq trailing_text_def writeFieldWithPath_eq)

lemma writeTrailingComment_examples:
  "builder (writeFieldWithPath commented_field [4, 0] 0
      (new_ProtoDefinition None empty_file
         (Map.empty(''4.0.2.0'' \<mapsto>
            \<lparr>LeadingComments = [], TrailingComments = '' the x'' @ newline,
             LeadingDetachedComments = []\<rparr>))))
     = ''int32 x = 1; //the x'' @ newline
   \<and> builder (writeFieldWithPath commented_field [4, 0] 0
      (new_ProtoDefinition None empty_file
         (Map.empty(''4.0.2.0'' \<mapsto>
            \<lparr>LeadingComments = [], TrailingComments = '' the x'' @ newline @ '' and more'' @ newline,
             LeadingDetachedComments = []\<rparr>))))
     = ''int32 x = 1;'' @ newline"
proof -
  let ?one = "\<lparr>LeadingComments = [], TrailingComments = '' the x'' @ newline,
             LeadingDetachedComments = []\<rparr>"
  let ?two = "\<lparr>LeadingComments = [], TrailingComments = '' the x'' @ newline @ '' and more'' @ newline,
             LeadingDetachedComments = []\<rparr>"
  let ?P = "new_ProtoDefinition None empty_file (Map.empty(''4.0.2.0'' \<mapsto> ?one))"
  let ?Q = "new_ProtoDefinition None empty_file (Map.empty(''4.0.2.0'' \<mapsto> ?two))"
  have k: "pathKey ([4, 0] @ [2, int32 0]) = ''4.0.2.0''" by code_simp
  have g: "getComments ([4, 0] @ [2, int32 0]) ?P = Some ?one"
    "getComments ([4, 0] @ [2, int32 0]) ?Q = Some ?two"
    using k by (simp_all add: getComments_def new_ProtoDefinition_def)
  have e: "builder (writeLeadingComments ([4, 0] @ [2, int32 0]) ?P)
       @ strings_Repeat ''  '' (indendation ?P)
       @ qualifier_text (file_Syntax (descriptor ?P)) commented_field
       @ type_text commented_field @ '' '' @ field_Name commented_field @ '' = ''
       @ strconv_Itoa (sint (field_Number commented_field))
       @ default_text commented_field @ '';''
       @ trailing_text (Some ?one)
       @ newline = ''int32 x = 1; //the x'' @ newline"
    "builder (writeLeadingComments ([4, 0] @ [2, int32 0]) ?Q)
       @ strings_Repeat ''  '' (indendation ?Q)
       @ qualifier_text (file_Syntax (descriptor ?Q)) commented_field
       @ type_text commented_field @ '' '' @ field_Name commented_field @ '' = ''
       @ strconv_Itoa (sint (field_Number commented_field))
       @ default_text commented_field @ '';''
       @ trailing_text (Some ?two)
       @ newline = ''int32 x = 1;'' @ newline"
    by code_simp+
  from writeTrailingComment_cases [of "[4, 0] @ [2, int32 0]" ?P ?one commented_field "[4, 0]" 0]
    writeTrailingComment_cases [of "[4, 0] @ [2, int32 0]" ?Q ?two commented_field "[4, 0]" 0]
  show ?thesis unfolding g using e by simp
qed

lemma writeTrailingComment_blank:
  "getComments [4, 0, 2, 0]
      (new_ProtoDefinition None empty_file
         (Map.empty(''4.0.2.0'' \<mapsto>
            \<lparr>LeadingComments = [], TrailingComments = newline, LeadingDetachedComments = []\<rparr>)))
     = Some \<lparr>LeadingComments = [], TrailingComments = newline, LeadingDetachedComments = []\<rparr>
   \<and> TrailingComments
        \<lparr>LeadingComments = [], TrailingComments = newline, LeadingDetachedComments = []\<rparr> \<noteq> []
   \<and> CHR 0x0A \<notin> set (strings_TrimSpace newline)
   \<and> builder (writeTrailingComment [4, 0, 2, 0]
        (new_ProtoDefinition None empty_file
           (Map.empty(''4.0.2.0'' \<mapsto>
              \<lparr>LeadingComments = [], TrailingComments = newline, LeadingDetachedComments = []\<rparr>))))
     = []
   \<and> builder (writeTrailingComment [4, 0, 2, 0]
        (new_ProtoDefinition None empty_file
           (Map.empty(''4.0.2.0'' \<mapsto>
              \<lparr>LeadingComments = [], TrailingComments = newline, LeadingDetachedComments = []\<rparr>))))
     \<noteq> '' //'' @ strings_TrimSpace newline"
  by code_simp


text \<open>
  A service is written as a block; its closing brace is followed by the line breaks at
  once.
\<close>

lemma appends_writeMethodWithPath [appends_intros]:
  "appends (writeMethodWithPath method servicePath methodIdx)"
proof -
  have "appends (\<lambda>pd. writeMethodWithPath method servicePath methodIdx pd)"
    unfolding writeMethodWithPath_def Let_def
    by (intro appends_intros)
  then show ?thesis .
qed


section \<open>The claims\<close>

text \<open>
  C1. For a start offset inside the buffer (a validated start is the offset of a tag byte
  \<open>0x0a\<close>), \<^verbatim>\<open>consumeBytes\<close> returns, without a panic, the length \<open>n\<close> of the segment
  of whole records that ends at the first offset where one of these holds: the record
  there is a second record of field 1 (the first one is consumed), the decode attempt
  there reports an invalid field number, the record there has length zero, or the buffer
  ends; then the error is \<^verbatim>\<open>nil\<close>. If the decode attempt there fails in any other way,
  \<open>n\<close> comes with an error. In \<^verbatim>\<open>Scan\<close>, when the start was found without a usable
  length prefix and \<^verbatim>\<open>consumeBytes\<close> returns an error, the error is printed, the pass
  ends by \<^verbatim>\<open>continue\<close> and the scan goes on with \<^verbatim>\<open>data[index+1:]\<close>, one byte after the
  offset \<open>index\<close> at which the marker was found, with the same candidates as the whole
  scan: the marker occurrence is given up and the scan is not.
\<close>

theorem consumeBytes_segment:
  "(0 \<le> start \<and> start < len data \<longrightarrow>
      (\<exists>n err seen. consumeBytes data start = Some (n, err)
         \<and> consumes data False start seen (start + n)
         \<and> (case err of None \<Rightarrow> natural_end data seen (start + n)
                       | Some msg \<Rightarrow> decode_failure data (start + n) msg)))
   \<and> (bytes_Index data scan \<noteq> - 1
       \<and> result (findValidStartWithLength dbg data (bytes_Index data scan)) = Some (start, pl, pb)
       \<and> start \<noteq> - 1 \<and> \<not> (pl > 0 \<and> start + pl \<le> len data)
       \<and> consumeBytes data start = Some (n, Some msg)
      \<longrightarrow> (\<exists>out. Scan_iteration dbg data totalOffset (bytes_Index data scan) = Some (Skip, out)
                \<and> (''%v\<newline>'', [AErr (Some msg)]) \<in> set out)
          \<and> result (Scan_loop dbg data totalOffset)
            = result (Scan_loop dbg (drop (nat (bytes_Index data scan + 1)) data)
                        (totalOffset + bytes_Index data scan + 1)))"
proof (intro conjI impI)
  assume "0 \<le> start \<and> start < len data"
  then show "\<exists>n err seen. consumeBytes data start = Some (n, err)
         \<and> consumes data False start seen (start + n)
         \<and> (case err of None \<Rightarrow> natural_end data seen (start + n)
                       | Some msg \<Rightarrow> decode_failure data (start + n) msg)"
    unfolding consumeBytes_def
    using consumeBytes_loop_segment [of start start data False] by simp
next
  assume a: "bytes_Index data scan \<noteq> - 1
       \<and> result (findValidStartWithLength dbg data (bytes_Index data scan)) = Some (start, pl, pb)
       \<and> start \<noteq> - 1 \<and> \<not> (pl > 0 \<and> start + pl \<le> len data)
       \<and> consumeBytes data start = Some (n, Some msg)"
  then have i: "0 \<le> bytes_Index data scan" "bytes_Index data scan + len scan \<le> len data"
    using bytes_Index_range [of data scan] by auto
  from a Scan_iteration_error [OF i, of dbg start pl pb n msg totalOffset]
  obtain out where o: "Scan_iteration dbg data totalOffset (bytes_Index data scan) = Some (Skip, out)"
    "(''%v\<newline>'', [AErr (Some msg)]) \<in> set out"
    by blast
  then show "\<exists>out. Scan_iteration dbg data totalOffset (bytes_Index data scan) = Some (Skip, out)
                \<and> (''%v\<newline>'', [AErr (Some msg)]) \<in> set out"
    by blast
  from a Scan_loop_Skip [OF _ o(1)]
  show "result (Scan_loop dbg data totalOffset)
            = result (Scan_loop dbg (drop (nat (bytes_Index data scan + 1)) data)
                        (totalOffset + bytes_Index data scan + 1))"
    by blast
qed

theorem consumeBytes_segment_witness:
  "consumeBytes [0x0a, 7, 0x61, 0x2e, 0x70, 0x72, 0x6f, 0x74, 0x6f, 0x12, 5, 0x41] 0
     = Some (9, Some ''couldn't consume proto bytes: unexpected EOF'')
   \<and> (\<exists>seen. consumes [0x0a, 7, 0x61, 0x2e, 0x70, 0x72, 0x6f, 0x74, 0x6f, 0x12, 5, 0x41] False 0 seen 9)
   \<and> decode_failure [0x0a, 7, 0x61, 0x2e, 0x70, 0x72, 0x6f, 0x74, 0x6f, 0x12, 5, 0x41] 9
        ''couldn't consume proto bytes: unexpected EOF''
   \<and> bytes_Index [0x0a, 7, 0x61, 0x2e, 0x70, 0x72, 0x6f, 0x74, 0x6f, 0x12, 5, 0x41] scan = 3
   \<and> result (findValidStartWithLength False
                [0x0a, 7, 0x61, 0x2e, 0x70, 0x72, 0x6f, 0x74, 0x6f, 0x12, 5, 0x41] 3)
       = Some (0, 0, 0)
   \<and> result (Scan_loop False [0x0a, 7, 0x61, 0x2e, 0x70, 0x72, 0x6f, 0x74, 0x6f, 0x12, 5, 0x41] 0)
       = result (Scan_loop False [0x70, 0x72, 0x6f, 0x74, 0x6f, 0x12, 5, 0x41] 4)
   \<and> result (Scan False [0x0a, 7, 0x61, 0x2e, 0x70, 0x72, 0x6f, 0x74, 0x6f, 0x12, 5, 0x41])
       = Some []"
proof -
  let ?d = "[0x0a, 7, 0x61, 0x2e, 0x70, 0x72, 0x6f, 0x74, 0x6f, 0x12, 5, 0x41] :: byte list"
  let ?m = "''couldn't consume proto bytes: unexpected EOF''"
  have c: "consumeBytes ?d 0 = Some (9, Some ?m)" by code_simp
  have i: "bytes_Index ?d scan = 3" by code_simp
  have f: "result (findValidStartWithLength False ?d 3) = Some (0, 0, 0)" by code_simp
  have s: "result (Scan False ?d) = Some []" by code_simp
  have l: "(0::int) \<le> 0 \<and> 0 < len ?d" by (simp add: len_def)
  from consumeBytes_segment [of 0 ?d False 0 0 9 ?m 0] c i f s l show ?thesis
    by auto
qed



text \<open>
  C5. The buffer below is 61 bytes long: the byte \<open>0x3c\<close> (the one-byte varint 60), the
  record of field 1 with the file name \<^verbatim>\<open>a.proto\<close> (start \<open>S = 1\<close>, file name length
  \<open>L = 7\<close>), and 51 bytes \<open>0\<close>. The one-byte varint ending exactly at \<open>S\<close> decodes to
  \<open>V = 60\<close>, with \<open>V \<ge> L + 50\<close> and \<open>S + V \<le> 61\<close>, so by the claim it is accepted
  and the candidate is \<open>[1, 61)\<close>. The code tries no width for a start below offset 4:
  \<^verbatim>\<open>findValidStartWithLength\<close> returns the start 1 with no prefix, \<^verbatim>\<open>Scan\<close> falls back to
  \<^verbatim>\<open>consumeBytes\<close> and the candidate is \<open>[1, 10)\<close>. With three more bytes in front (start
  at offset 4) the same prefix is accepted and the candidate has length 60.
\<close>

theorem outer_prefix_not_tried_below_offset_4:
  "ConsumeVarint (0x3c # [0x0a, 7, 0x61, 0x2e, 0x70, 0x72, 0x6f, 0x74, 0x6f] @ replicate 51 0)
     = Inr (60, 1)
   \<and> len (0x3c # [0x0a, 7, 0x61, 0x2e, 0x70, 0x72, 0x6f, 0x74, 0x6f] @ replicate 51 (0 :: byte)) = 61
   \<and> result (findValidStartWithLength False
               (0x3c # [0x0a, 7, 0x61, 0x2e, 0x70, 0x72, 0x6f, 0x74, 0x6f] @ replicate 51 0) 4)
       = Some (1, 0, 0)
   \<and> Scan_ranges False (0x3c # [0x0a, 7, 0x61, 0x2e, 0x70, 0x72, 0x6f, 0x74, 0x6f] @ replicate 51 0)
       = Some [(1, 9)]
   \<and> Scan_ranges False
        ([0, 0, 0, 0x3c] @ [0x0a, 7, 0x61, 0x2e, 0x70, 0x72, 0x6f, 0x74, 0x6f] @ replicate 51 0)
       = Some [(4, 60)]"
  by code_simp

text \<open>
  C9. A buffer in which the six bytes of the marker \<^verbatim>\<open>.proto\<close> occur at no offset makes
  \<^verbatim>\<open>Scan\<close> return the empty list of candidates (and print nothing), whatever the
  debug flag.
\<close>

theorem Scan_without_marker:
  "(\<forall>i. take (length scan) (drop i data) \<noteq> scan) \<Longrightarrow> Scan dbg data = Some ([], [])"
  by (simp add: Scan_def Scan_loop.simps bytes_Index_def Index_from_absent)

theorem Scan_without_marker_witness:
  "(\<forall>i. take (length scan) (drop i [0x61, 0x62 :: byte]) \<noteq> scan) \<and> Scan True [0x61, 0x62] = Some ([], [])"
proof -
  have h: "\<forall>i. take (length scan) (drop i [0x61, 0x62 :: byte]) \<noteq> scan"
  proof
    fix i
    have "length (take (length scan) (drop i [0x61, 0x62 :: byte])) \<le> 2" by simp
    moreover have "length scan = 6" by (simp add: scan_def)
    ultimately have "length (take (length scan) (drop i [0x61, 0x62 :: byte])) \<noteq> length scan"
      by linarith
    then show "take (length scan) (drop i [0x61, 0x62 :: byte]) \<noteq> scan" by metis
  qed
  from h Scan_without_marker [OF h, of True] show ?thesis by blast
qed

text \<open>
  C7. The candidates \<^verbatim>\<open>Scan\<close> returns, read as ranges (offset, length) of the buffer
  it was called on, are in the order of their offsets and do not overlap: each range
  begins at or after the end of every range returned before it. Each range is non-empty
  and lies inside the buffer, and the byte slices \<^verbatim>\<open>Scan\<close> returns are exactly the bytes
  of the buffer in these ranges.
\<close>

theorem Scan_ranges_ordered:
  "Scan_ranges dbg data = Some rs \<Longrightarrow>
     sorted_wrt (\<lambda>(s1, l1) (s2, l2). s1 + l1 \<le> s2) rs
     \<and> list_all (\<lambda>(s, l). 0 \<le> s \<and> 0 < l \<and> s + l \<le> len data) rs
     \<and> result (Scan dbg data) = Some (map (\<lambda>(s, l). take (nat l) (drop (nat s) data)) rs)"
proof -
  assume a: "Scan_ranges dbg data = Some rs"
  then obtain results out where L: "Scan_loop dbg data 0 = Some (results, out)"
    and rs: "rs = map (\<lambda>(offset, bytes). (offset, len bytes)) results"
    by (auto simp: Scan_ranges_def split: option.splits)
  have R: "ranges_from data 0 results"
    using Scan_loop_ranges [OF L, of data] by (simp add: len_def)
  have 1: "sorted_wrt (\<lambda>(s1, l1) (s2, l2). s1 + l1 \<le> s2) rs"
    using ranges_from_sorted [OF R] unfolding rs
    by (simp add: sorted_wrt_map case_prod_unfold)
  have 2: "list_all (\<lambda>(s, l). 0 \<le> s \<and> 0 < l \<and> s + l \<le> len data) rs"
    unfolding rs list_all_iff using ranges_from_members [OF R]
    by (fastforce simp: len_def)
  have "map snd results = map (\<lambda>(s, l). take (nat l) (drop (nat s) data)) rs"
    unfolding rs using ranges_from_members [OF R]
    by (auto simp: len_def)
  with L have 3: "result (Scan dbg data) = Some (map (\<lambda>(s, l). take (nat l) (drop (nat s) data)) rs)"
    by (simp add: Scan_def)
  from 1 2 3 show ?thesis by blast
qed

theorem Scan_ranges_ordered_witness:
  "Scan_ranges False [0x0a, 7, 0x61, 0x2e, 0x70, 0x72, 0x6f, 0x74, 0x6f, 0x12, 1, 0x41,
                      0x0a, 7, 0x62, 0x2e, 0x70, 0x72, 0x6f, 0x74, 0x6f, 0x12, 1, 0x41]
     = Some [(0, 12), (12, 12)]
   \<and> sorted_wrt (\<lambda>(s1, l1) (s2, l2). s1 + l1 \<le> s2) [(0, 12), (12, 12 :: int)]
   \<and> result (Scan False [0x0a, 7, 0x61, 0x2e, 0x70, 0x72, 0x6f, 0x74, 0x6f, 0x12, 1, 0x41,
                          0x0a, 7, 0x62, 0x2e, 0x70, 0x72, 0x6f, 0x74, 0x6f, 0x12, 1, 0x41])
     = Some [[0x0a, 7, 0x61, 0x2e, 0x70, 0x72, 0x6f, 0x74, 0x6f, 0x12, 1, 0x41],
             [0x0a, 7, 0x62, 0x2e, 0x70, 0x72, 0x6f, 0x74, 0x6f, 0x12, 1, 0x41]]"
proof -
  have h: "Scan_ranges False [0x0a, 7, 0x61, 0x2e, 0x70, 0x72, 0x6f, 0x74, 0x6f, 0x12, 1, 0x41,
                      0x0a, 7, 0x62, 0x2e, 0x70, 0x72, 0x6f, 0x74, 0x6f, 0x12, 1, 0x41]
     = Some [(0, 12), (12, 12)]"
    by code_simp
  from Scan_ranges_ordered [OF h] h show ?thesis by simp
qed

text \<open>
  C10. The candidates \<^verbatim>\<open>Scan\<close> returns (and whether it panics) are the same with
  \<^verbatim>\<open>DebugScan\<close> set and unset: the flag only changes what is printed.
\<close>

theorem Scan_DebugScan_noninterference:
  "result (Scan True data) = result (Scan False data)"
  using Scan_loop_flag [of True data 0]
  by (cases rule: result_eq_cases) (simp_all add: Scan_def)

text \<open>
  C2. \<^verbatim>\<open>Scan\<close> returns on every buffer, without a panic: it is a total function (its
  loop is defined by recursion on a buffer that gets shorter) and no slice expression or
  index of \<^verbatim>\<open>Scan\<close>, \<^verbatim>\<open>findValidStartWithLength\<close> or \<^verbatim>\<open>consumeBytes\<close> leaves its slice.
  The loop head is reached at most once more than the buffer has bytes. A pass that finds
  the marker never leaves by \<^verbatim>\<open>break\<close>: either it skips, and the scan goes on one byte
  after the offset of the marker with the same candidates, or it records the candidate
  \<^verbatim>\<open>data[start:start+n]\<close> with \<open>n > 0\<close> inside the buffer and goes on behind it. A marker
  for which \<^verbatim>\<open>findValidStartWithLength\<close> finds no valid start (it returns \<open>-1\<close>) is
  skipped and so adds no candidate.
\<close>

theorem Scan_terminates_without_panic:
  "(\<exists>results out. Scan dbg data = Some (results, out))
   \<and> Scan_passes dbg data totalOffset \<le> length data + 1
   \<and> (bytes_Index data scan \<noteq> - 1 \<longrightarrow>
        (\<exists>out. Scan_iteration dbg data totalOffset (bytes_Index data scan) = Some (Skip, out)
           \<and> result (Scan_loop dbg data totalOffset)
             = result (Scan_loop dbg (drop (nat (bytes_Index data scan + 1)) data)
                         (totalOffset + bytes_Index data scan + 1)))
        \<or> (\<exists>start n out.
              Scan_iteration dbg data totalOffset (bytes_Index data scan) = Some (Extract start n, out)
              \<and> 0 \<le> start \<and> 0 < n \<and> start + n \<le> len data
              \<and> result (Scan_loop dbg data totalOffset)
                = map_option (\<lambda>rs. (totalOffset + start, take (nat n) (drop (nat start) data)) # rs)
                    (result (Scan_loop dbg (drop (nat (start + n)) data) (totalOffset + start + n)))))
   \<and> (bytes_Index data scan \<noteq> - 1
        \<and> (\<exists>pl pb. result (findValidStartWithLength dbg data (bytes_Index data scan)) = Some (- 1, pl, pb))
      \<longrightarrow> result (Scan_loop dbg data totalOffset)
          = result (Scan_loop dbg (drop (nat (bytes_Index data scan + 1)) data)
                      (totalOffset + bytes_Index data scan + 1)))"
proof -
  define index where "index = bytes_Index data scan"
  have 1: "\<exists>results out. Scan dbg data = Some (results, out)"
    using Scan_loop_ok [of dbg data 0] by (auto simp: Scan_def)
  have 2: "Scan_passes dbg data totalOffset \<le> length data + 1"
    by (rule Scan_passes_bound)
  have 34: "?thesis" if m: "index \<noteq> - 1"
  proof -
    from m have i: "0 \<le> index" "index + len scan \<le> len data"
      using bytes_Index_range [of data scan] by (auto simp: index_def)
    from Scan_iteration_ok [OF i, of dbg totalOffset]
    obtain it out where it: "Scan_iteration dbg data totalOffset index = Some (it, out)"
      and nb: "it \<noteq> Break"
      and sk: "it = Skip \<longleftrightarrow>
                  (\<exists>start pl pb. result (findValidStartWithLength dbg data index) = Some (start, pl, pb)
                     \<and> (start = - 1
                        \<or> \<not> (pl > 0 \<and> start + pl \<le> len data)
                          \<and> (\<exists>n e. consumeBytes data start = Some (n, Some e))))"
      by blast
    show ?thesis
    proof (cases it)
      case Break
      with nb show ?thesis by simp
    next
      case Skip
      from Scan_loop_Skip [OF m [unfolded index_def] it [unfolded Skip index_def]]
      show ?thesis using 1 2 it Skip unfolding index_def by blast
    next
      case (Extract start n)
      with sk have ns: "\<not> (\<exists>pl pb. result (findValidStartWithLength dbg data index) = Some (- 1, pl, pb))"
        by auto
      from Scan_loop_Extract [OF m [unfolded index_def] it [unfolded Extract index_def]]
        Scan_iteration_Extract [OF it [unfolded Extract]]
      show ?thesis using 1 2 it Extract ns unfolding index_def by blast
    qed
  qed
  show ?thesis
  proof (cases "index = - 1")
    case True
    with 1 2 show ?thesis by (simp add: index_def)
  next
    case False
    then show ?thesis by (rule 34)
  qed
qed

theorem Scan_terminates_without_panic_witness:
  "bytes_Index [0x0a, 0x80, 0x2e, 0x70, 0x72, 0x6f, 0x74, 0x6f] scan = 2
   \<and> result (findValidStartWithLength False [0x0a, 0x80, 0x2e, 0x70, 0x72, 0x6f, 0x74, 0x6f] 2)
       = Some (- 1, 0, 0)
   \<and> result (Scan_loop False [0x0a, 0x80, 0x2e, 0x70, 0x72, 0x6f, 0x74, 0x6f] 0)
       = result (Scan_loop False [0x70, 0x72, 0x6f, 0x74, 0x6f] 3)
   \<and> Scan False [0x0a, 0x80, 0x2e, 0x70, 0x72, 0x6f, 0x74, 0x6f] = Some ([], [])
   \<and> Scan_passes False [0x0a, 0x80, 0x2e, 0x70, 0x72, 0x6f, 0x74, 0x6f] 0 \<le> 9"
proof -
  let ?d = "[0x0a, 0x80, 0x2e, 0x70, 0x72, 0x6f, 0x74, 0x6f] :: byte list"
  have i: "bytes_Index ?d scan = 2" by code_simp
  have f: "result (findValidStartWithLength False ?d 2) = Some (- 1, 0, 0)" by code_simp
  have s: "Scan False ?d = Some ([], [])" by code_simp
  from Scan_terminates_without_panic [of False ?d 0] i f s show ?thesis by simp
qed

text \<open>
  C4. A oneof is synthetic when the file is proto3 and the oneof has exactly one field,
  which carries the \<^verbatim>\<open>optional\<close> keyword (\<^verbatim>\<open>IsSynthetic\<close> of \<^verbatim>\<open>protoreflect\<close>). For a
  synthetic oneof \<^verbatim>\<open>writeOneofWithPath\<close> does exactly what \<^verbatim>\<open>writeFieldWithPath\<close> does for
  that field, and what it writes after the leading comments of the field is the line
  \<^verbatim>\<open>optional <type> <name> = <n>;\<close> at the current indentation (with the default value
  and the trailing comment of the field, if any): no \<^verbatim>\<open>oneof\<close> header and no braces.
  For a oneof that is not synthetic it writes the block \<^verbatim>\<open>oneof <name> {\<close>, the text of
  the fields, and the closing \<^verbatim>\<open>}\<close>.
\<close>

theorem synthetic_oneof_rendering:
  "(IsSynthetic (file_Syntax (descriptor pd)) oneof \<longrightarrow>
      writeOneofWithPath oneof msgPath oneofIdx fieldIndexMap pd
      = writeFieldWithPath (oneof_Fields oneof ! 0) msgPath
          (lookup_index fieldIndexMap (field_Name (oneof_Fields oneof ! 0))) pd
      \<and> builder (writeOneofWithPath oneof msgPath oneofIdx fieldIndexMap pd)
        = builder (writeLeadingComments
                     (msgPath @ [2, int32 (lookup_index fieldIndexMap
                                             (field_Name (oneof_Fields oneof ! 0)))]) pd)
          @ strings_Repeat ''  '' (indendation pd)
          @ ''optional '' @ type_text (oneof_Fields oneof ! 0) @ '' ''
          @ field_Name (oneof_Fields oneof ! 0) @ '' = ''
          @ strconv_Itoa (sint (field_Number (oneof_Fields oneof ! 0)))
          @ default_text (oneof_Fields oneof ! 0) @ '';''
          @ trailing_text (getComments
                     (msgPath @ [2, int32 (lookup_index fieldIndexMap
                                             (field_Name (oneof_Fields oneof ! 0)))]) pd)
          @ newline)
   \<and> (\<not> IsSynthetic (file_Syntax (descriptor pd)) oneof \<longrightarrow>
      (\<exists>body. builder (writeOneofWithPath oneof msgPath oneofIdx fieldIndexMap pd)
         = builder (writeLeadingComments (msgPath @ [8, int32 oneofIdx]) pd)
           @ strings_Repeat ''  '' (indendation pd)
           @ ''oneof '' @ oneof_Name oneof @ '' {'' @ newline
           @ body
           @ strings_Repeat ''  '' (indendation pd) @ ''}''
           @ trailing_text (getComments (msgPath @ [8, int32 oneofIdx]) pd) @ newline))"
proof (intro conjI impI)
  assume s: "IsSynthetic (file_Syntax (descriptor pd)) oneof"
  show e: "writeOneofWithPath oneof msgPath oneofIdx fieldIndexMap pd
      = writeFieldWithPath (oneof_Fields oneof ! 0) msgPath
          (lookup_index fieldIndexMap (field_Name (oneof_Fields oneof ! 0))) pd"
    unfolding writeOneofWithPath_def Let_def using s by (simp only: if_True)
  show "builder (writeOneofWithPath oneof msgPath oneofIdx fieldIndexMap pd)
        = builder (writeLeadingComments
                     (msgPath @ [2, int32 (lookup_index fieldIndexMap
                                             (field_Name (oneof_Fields oneof ! 0)))]) pd)
          @ strings_Repeat ''  '' (indendation pd)
          @ ''optional '' @ type_text (oneof_Fields oneof ! 0) @ '' ''
          @ field_Name (oneof_Fields oneof ! 0) @ '' = ''
          @ strconv_Itoa (sint (field_Number (oneof_Fields oneof ! 0)))
          @ default_text (oneof_Fields oneof ! 0) @ '';''
          @ trailing_text (getComments
                     (msgPath @ [2, int32 (lookup_index fieldIndexMap
                                             (field_Name (oneof_Fields oneof ! 0)))]) pd)
          @ newline"
  proof -
    have u: "\<And>(r :: ProtoDefinition) t. builder (r\<lparr>builder := t\<rparr>) = t" by simp
    show ?thesis
      by (simp only: e writeFieldWithPath_eq IsSynthetic_qualifier [OF s] u)
  qed
next
  assume n: "\<not> IsSynthetic (file_Syntax (descriptor pd)) oneof"
  then show "\<exists>body. builder (writeOneofWithPath oneof msgPath oneofIdx fieldIndexMap pd)
         = builder (writeLeadingComments (msgPath @ [8, int32 oneofIdx]) pd)
           @ strings_Repeat ''  '' (indendation pd)
           @ ''oneof '' @ oneof_Name oneof @ '' {'' @ newline
           @ body
           @ strings_Repeat ''  '' (indendation pd) @ ''}''
           @ trailing_text (getComments (msgPath @ [8, int32 oneofIdx]) pd) @ newline"
    by (rule writeOneofWithPath_block)
qed

theorem synthetic_oneof_rendering_witness:
  "IsSynthetic Proto3 synthetic_oneof
   \<and> builder (writeOneofWithPath synthetic_oneof [4, 0] 1
                (Map.empty(''mail'' \<mapsto> 0, ''phone'' \<mapsto> 1, ''nick'' \<mapsto> 2))
                (indent (new_ProtoDefinition None empty_file Map.empty)))
     = ''  optional string nick = 3;'' @ newline
   \<and> \<not> IsSynthetic Proto3 explicit_oneof
   \<and> (\<exists>body. builder (writeOneofWithPath explicit_oneof [4, 0] 0
                (Map.empty(''mail'' \<mapsto> 0, ''phone'' \<mapsto> 1, ''nick'' \<mapsto> 2))
                (indent (new_ProtoDefinition None empty_file Map.empty)))
        = ''  oneof contact {'' @ newline @ body @ ''  }'' @ newline)"
proof -
  let ?P = "indent (new_ProtoDefinition None empty_file Map.empty)"
  let ?m = "Map.empty(''mail'' \<mapsto> 0 :: int, ''phone'' \<mapsto> 1, ''nick'' \<mapsto> 2)"
  have p: "file_Syntax (descriptor ?P) = Proto3" by code_simp
  have h: "IsSynthetic Proto3 synthetic_oneof" "\<not> IsSynthetic Proto3 explicit_oneof"
    by code_simp+
  have t: "builder (writeLeadingComments
                     ([4, 0] @ [2, int32 (lookup_index ?m
                                             (field_Name (oneof_Fields synthetic_oneof ! 0)))]) ?P)
          @ strings_Repeat ''  '' (indendation ?P)
          @ ''optional '' @ type_text (oneof_Fields synthetic_oneof ! 0) @ '' ''
          @ field_Name (oneof_Fields synthetic_oneof ! 0) @ '' = ''
          @ strconv_Itoa (sint (field_Number (oneof_Fields synthetic_oneof ! 0)))
          @ default_text (oneof_Fields synthetic_oneof ! 0) @ '';''
          @ trailing_text (getComments
                     ([4, 0] @ [2, int32 (lookup_index ?m
                                             (field_Name (oneof_Fields synthetic_oneof ! 0)))]) ?P)
          @ newline
        = ''  optional string nick = 3;'' @ newline"
    by code_simp
  have a: "builder (writeLeadingComments ([4, 0] @ [8, int32 0]) ?P) = []"
    "strings_Repeat ''  '' (indendation ?P) = ''  ''"
    "oneof_Name explicit_oneof = ''contact''"
    "trailing_text (getComments ([4, 0] @ [8, int32 0]) ?P) = []"
    by code_simp+
  from synthetic_oneof_rendering [of ?P synthetic_oneof "[4, 0]" 1 ?m] h(1)
  have 1: "builder (writeOneofWithPath synthetic_oneof [4, 0] 1 ?m ?P)
     = ''  optional string nick = 3;'' @ newline"
    unfolding p t by (rule conjunct2 [OF mp [OF conjunct1]])
  from synthetic_oneof_rendering [of ?P explicit_oneof "[4, 0]" 0 ?m] h(2)
  have "\<exists>body. builder (writeOneofWithPath explicit_oneof [4, 0] 0 ?m ?P)
        = [] @ ''  '' @ ''oneof '' @ ''contact'' @ '' {'' @ newline @ body
          @ ''  '' @ ''}'' @ [] @ newline"
    unfolding p a by (rule mp [OF conjunct2])
  then have 2: "\<exists>body. builder (writeOneofWithPath explicit_oneof [4, 0] 0 ?m ?P)
        = ''  oneof contact {'' @ newline @ body @ ''  }'' @ newline"
    by simp
  from h 1 2 show ?thesis by (intro conjI)
qed



text \<open>
  C8. \<^verbatim>\<open>ReservedRanges().Get(i)\<close> returns the pair as an array value, so the exchange and
  the decrement of \<^verbatim>\<open>writeMessageWithPath\<close> act on the local copy \<^verbatim>\<open>reservedRange\<close>. The
  descriptor that the state holds is the same after writing a reserved range, after
  writing a message (with all its nested messages) and after writing the file, so the
  reserved ranges of its messages are the stored pairs still; and rendering again from
  the descriptor, comments and options that a render leaves gives the same text.
\<close>

theorem reserved_ranges_not_mutated:
  "descriptor (writeReservedRange r pd) = descriptor pd
   \<and> descriptor (writeMessageWithPath message basePath msgIdx isNested pd) = descriptor pd
   \<and> descriptor (writeFileDescriptor pd) = descriptor pd
   \<and> map message_ReservedRanges (file_Messages (descriptor (writeFileDescriptor pd)))
     = map message_ReservedRanges (file_Messages (descriptor pd))
   \<and> builder (writeFileDescriptor
        (new_ProtoDefinition
           (pb_Options (writeFileDescriptor (new_ProtoDefinition options d cs)))
           (descriptor (writeFileDescriptor (new_ProtoDefinition options d cs)))
           (comments (writeFileDescriptor (new_ProtoDefinition options d cs)))))
     = builder (writeFileDescriptor (new_ProtoDefinition options d cs))"
proof -
  have 1: "frame (writeReservedRange r pd) = frame pd"
    by (rule keepsD [OF keeps_writeReservedRange])
  have 2: "frame (writeMessageWithPath message basePath msgIdx isNested pd) = frame pd"
    by (rule frame_writeMessageWithPath)
  have 3: "\<And>pd. frame (writeFileDescriptor pd) = frame pd"
    by (rule keepsD [OF keeps_writeFileDescriptor])
  have 4: "descriptor (writeFileDescriptor pd) = descriptor pd"
    by (rule frame_descriptor [OF 3])
  let ?new = "new_ProtoDefinition options d cs"
  have "frame (writeFileDescriptor ?new) = (d, cs, options)"
    unfolding 3 by (simp add: frame_def new_ProtoDefinition_def)
  then have 5: "descriptor (writeFileDescriptor ?new) = d"
    "comments (writeFileDescriptor ?new) = cs" "pb_Options (writeFileDescriptor ?new) = options"
    by (simp_all add: frame_def)
  show ?thesis
  proof (intro conjI)
    show "descriptor (writeReservedRange r pd) = descriptor pd"
      by (rule frame_descriptor [OF 1])
    show "descriptor (writeMessageWithPath message basePath msgIdx isNested pd) = descriptor pd"
      by (rule frame_descriptor [OF 2])
    show "descriptor (writeFileDescriptor pd) = descriptor pd" by (rule 4)
    show "map message_ReservedRanges (file_Messages (descriptor (writeFileDescriptor pd)))
     = map message_ReservedRanges (file_Messages (descriptor pd))"
      by (simp only: 4)
    show "builder (writeFileDescriptor
        (new_ProtoDefinition
           (pb_Options (writeFileDescriptor ?new))
           (descriptor (writeFileDescriptor ?new))
           (comments (writeFileDescriptor ?new))))
     = builder (writeFileDescriptor ?new)"
      by (simp only: 5)
  qed
qed

end
